theory Spec2Isabelle
  imports Complex_Main
begin

section \<open>Python values used by the \<open>zen\<close> command\<close>

text \<open>
  The command \<open>Utils.zen\<close> of \<^verbatim>\<open>bot/exts/utils/utils.py\<close> selects one line of a fixed
  text.  The specification calls the selection \<open>resolve(corpus, selector)\<close>: it is the
  body of \<open>zen\<close> with the local \<open>zen_lines\<close> taken as a parameter.

  A Python \<open>str\<close> is a sequence of code points.  It is modelled as a \<open>string\<close> whose
  characters are the code points U+0000 to U+00FF, one \<open>char\<close> each, so that \<open>length\<close>
  is Python's \<open>len\<close>.  On this range \<open>str.lower\<close> and \<open>str.split\<close> are the functions
  below; strings with code points beyond U+00FF are outside the model.
\<close>

definition isspace :: "char \<Rightarrow> bool" where
  \<comment> \<open>\<open>str.isspace\<close> on one code point: TAB to CR, FS to US, SPACE, NEL and NBSP.\<close>
  "isspace c =
     (let n = (of_char c :: nat)
      in (9 \<le> n \<and> n \<le> 13) \<or> (28 \<le> n \<and> n \<le> 32) \<or> n = 133 \<or> n = 160)"

definition lower_char :: "char \<Rightarrow> char" where
  \<comment> \<open>\<open>A\<close> to \<open>Z\<close>, and U+00C0 to U+00DE without the multiplication sign U+00D7.\<close>
  "lower_char c =
     (let n = (of_char c :: nat)
      in if (65 \<le> n \<and> n \<le> 90) \<or> (192 \<le> n \<and> n \<le> 222 \<and> n \<noteq> 215)
         then char_of (n + 32) else c)"

definition str_lower :: "string \<Rightarrow> string" where
  "str_lower s = map lower_char s"

text \<open>
  \<open>str.upper\<close> is used by the specification only (the code never calls it).  The upper
  case of U+00DF is the two letters \<open>SS\<close>; the upper cases of U+00B5 and U+00FF lie
  beyond U+00FF, where the result is \<open>None\<close>.
\<close>

definition upper_char :: "char \<Rightarrow> string option" where
  "upper_char c =
     (let n = (of_char c :: nat)
      in if (97 \<le> n \<and> n \<le> 122) \<or> (224 \<le> n \<and> n \<le> 254 \<and> n \<noteq> 247)
         then Some [char_of (n - 32)]
         else if n = 223 then Some ''SS''
         else if n = 181 \<or> n = 255 then None
         else Some [c])"

fun str_upper :: "string \<Rightarrow> string option" where
  "str_upper [] = Some []"
| "str_upper (c # cs) =
     (case upper_char c of
        None \<Rightarrow> None
      | Some u \<Rightarrow> (case str_upper cs of None \<Rightarrow> None | Some us \<Rightarrow> Some (u @ us)))"

text \<open>
  \<open>str.split()\<close> without arguments: runs of whitespace separate the words, and no
  word is empty.  The first argument is the word being read.
\<close>

fun split_from :: "string \<Rightarrow> string \<Rightarrow> string list" where
  "split_from w [] = (if w = [] then [] else [w])"
| "split_from w (c # cs) =
     (if isspace c
      then (if w = [] then split_from [] cs else w # split_from [] cs)
      else split_from (w @ [c]) cs)"

definition split :: "string \<Rightarrow> string list" where
  "split s = split_from [] s"

datatype error =
    OutOfRange int int  \<comment> \<open>\<open>BadArgument\<close> "Please provide an index between ... and ..."\<close>
  | NoMatch             \<comment> \<open>\<open>BadArgument\<close> "I didn't get a match! ..."\<close>
  | TypeError           \<comment> \<open>\<open>>\<close> between a \<open>complex\<close> and a real number\<close>
  | IndexError
  | ZeroDivisionError

record match_result =
  result_index :: int   \<comment> \<open>the \<open>N\<close> of the title "(line N):"\<close>
  result_line :: string \<comment> \<open>the embed's description\<close>

datatype selector = Index int | Query string

definition py_mod :: "int \<Rightarrow> int \<Rightarrow> error + int" where
  \<comment> \<open>\<open>%\<close> on integers: the result has the sign of the divisor, as \<open>mod\<close> on \<open>int\<close>.\<close>
  "py_mod a b = (if b = 0 then Inl ZeroDivisionError else Inr (a mod b))"

definition getitem :: "'a list \<Rightarrow> int \<Rightarrow> error + 'a" where
  \<comment> \<open>\<open>xs[i]\<close>: a negative \<open>i\<close> counts from the end.\<close>
  "getitem xs i =
     (if 0 \<le> i \<and> i < int (length xs) then Inr (xs ! nat i)
      else if - int (length xs) \<le> i \<and> i < 0 then Inr (xs ! nat (int (length xs) + i))
      else Inl IndexError)"

section \<open>Phase 1: the first exact word\<close>

text \<open>
  \<^verbatim>\<open>for word in line.split(): if word.lower() == search_value.lower(): ... return\<close>
  The inner loop says whether it returned.
\<close>

fun word_loop :: "string \<Rightarrow> string list \<Rightarrow> bool" where
  "word_loop search_value [] = False"
| "word_loop search_value (word # ws) =
     (if str_lower word = str_lower search_value then True
      else word_loop search_value ws)"

fun line_loop :: "string \<Rightarrow> nat \<Rightarrow> string list \<Rightarrow> match_result option" where
  "line_loop search_value i [] = None"
| "line_loop search_value i (line # rest) =
     (if word_loop search_value (split line)
      then Some \<lparr>result_index = int i, result_line = line\<rparr>
      else line_loop search_value (Suc i) rest)"

section \<open>The similarity ratio of \<open>difflib.SequenceMatcher\<close>\<close>

text \<open>
  \<^verbatim>\<open>matcher = difflib.SequenceMatcher(None, a)\<close> followed by \<^verbatim>\<open>matcher.set_seq2(b)\<close>:
  no junk function, \<open>autojunk\<close> left at its default.  The matcher's caches depend on
  \<open>a\<close> and \<open>b\<close> only, so the ratio is a function of the two sequences.

  \<open>__chain_b\<close> maps every element of \<open>b\<close> to the increasing list of its positions, and
  drops the popular elements: those that occur more than \<open>len(b) // 100 + 1\<close> times
  when \<open>b\<close> has 200 elements or more.
\<close>

definition popular :: "string \<Rightarrow> char \<Rightarrow> bool" where
  "popular b elt = (200 \<le> length b \<and> length b div 100 + 1 < count_list b elt)"

definition b2j :: "string \<Rightarrow> char \<Rightarrow> nat list" where
  "b2j b elt = (if popular b elt then [] else filter (\<lambda>j. b ! j = elt) [0..<length b])"

definition j2lenget :: "(nat \<rightharpoonup> nat) \<Rightarrow> int \<Rightarrow> nat" where
  \<comment> \<open>\<open>j2len.get(key, 0)\<close>; the key \<open>j - 1\<close> is \<open>-1\<close> for \<open>j = 0\<close> and then absent.\<close>
  "j2lenget j2len key =
     (if key < 0 then 0 else (case j2len (nat key) of None \<Rightarrow> 0 | Some k \<Rightarrow> k))"

text \<open>
  The inner loop of \<open>find_longest_match\<close>, over the positions \<open>j\<close> of \<open>a[i]\<close> in \<open>b\<close>:
  \<open>continue\<close> below \<open>blo\<close>, \<open>break\<close> from \<open>bhi\<close> on.  The state is
  \<open>(newj2len, besti, bestj, bestsize)\<close>.  Python's \<open>i-k+1\<close> is written \<open>i + 1 - k\<close> on
  natural numbers, and \<open>j-k+1\<close> likewise; \<open>k \<le> i + 1\<close> and \<open>k \<le> j + 1\<close> hold there
  (lemma \<open>j2lenget_fits\<close>).
\<close>

fun j_loop ::
  "(nat \<rightharpoonup> nat) \<Rightarrow> nat \<Rightarrow> nat \<Rightarrow> nat \<Rightarrow> nat list \<Rightarrow>
   (nat \<rightharpoonup> nat) \<times> nat \<times> nat \<times> nat \<Rightarrow> (nat \<rightharpoonup> nat) \<times> nat \<times> nat \<times> nat" where
  "j_loop j2len i blo bhi [] st = st"
| "j_loop j2len i blo bhi (j # js) (newj2len, besti, bestj, bestsize) =
     (if j < blo then j_loop j2len i blo bhi js (newj2len, besti, bestj, bestsize)
      else if bhi \<le> j then (newj2len, besti, bestj, bestsize)
      else (let k = j2lenget j2len (int j - 1) + 1
            in if bestsize < k
               then j_loop j2len i blo bhi js (newj2len(j \<mapsto> k), i + 1 - k, j + 1 - k, k)
               else j_loop j2len i blo bhi js (newj2len(j \<mapsto> k), besti, bestj, bestsize)))"

text \<open>The outer loop, \<^verbatim>\<open>for i in range(alo, ahi)\<close>; the state is \<open>(j2len, besti, bestj, bestsize)\<close>.\<close>

fun i_loop ::
  "string \<Rightarrow> string \<Rightarrow> nat \<Rightarrow> nat \<Rightarrow> nat list \<Rightarrow>
   (nat \<rightharpoonup> nat) \<times> nat \<times> nat \<times> nat \<Rightarrow> (nat \<rightharpoonup> nat) \<times> nat \<times> nat \<times> nat" where
  "i_loop a b blo bhi [] st = st"
| "i_loop a b blo bhi (i # ir) (j2len, besti, bestj, bestsize) =
     i_loop a b blo bhi ir
       (j_loop j2len i blo bhi (b2j b (a ! i)) (Map.empty, besti, bestj, bestsize))"

text \<open>
  The two \<open>while\<close> loops that extend the best match by elements that are not junk
  (no element is junk here, so the two loops for junk elements never run).
\<close>

function grow_left :: "string \<Rightarrow> string \<Rightarrow> nat \<Rightarrow> nat \<Rightarrow> nat \<times> nat \<times> nat \<Rightarrow> nat \<times> nat \<times> nat" where
  "grow_left a b alo blo (besti, bestj, bestsize) =
     (if alo < besti \<and> blo < bestj \<and> a ! (besti - 1) = b ! (bestj - 1)
      then grow_left a b alo blo (besti - 1, bestj - 1, bestsize + 1)
      else (besti, bestj, bestsize))"
  by pat_completeness auto
termination
  by (relation "measure (\<lambda>(a, b, alo, blo, besti, bestj, bestsize). besti)") auto

function grow_right :: "string \<Rightarrow> string \<Rightarrow> nat \<Rightarrow> nat \<Rightarrow> nat \<times> nat \<times> nat \<Rightarrow> nat \<times> nat \<times> nat" where
  "grow_right a b ahi bhi (besti, bestj, bestsize) =
     (if besti + bestsize < ahi \<and> bestj + bestsize < bhi
         \<and> a ! (besti + bestsize) = b ! (bestj + bestsize)
      then grow_right a b ahi bhi (besti, bestj, bestsize + 1)
      else (besti, bestj, bestsize))"
  by pat_completeness auto
termination
  by (relation "measure (\<lambda>(a, b, ahi, bhi, besti, bestj, bestsize). ahi - (besti + bestsize))") auto

declare grow_left.simps [simp del] grow_right.simps [simp del]

definition find_longest_match ::
  "string \<Rightarrow> string \<Rightarrow> nat \<Rightarrow> nat \<Rightarrow> nat \<Rightarrow> nat \<Rightarrow> nat \<times> nat \<times> nat" where
  "find_longest_match a b alo ahi blo bhi =
     (case i_loop a b blo bhi [alo..<ahi] (Map.empty, alo, blo, 0) of
        (j2len, besti, bestj, bestsize) \<Rightarrow>
          grow_right a b ahi bhi (grow_left a b alo blo (besti, bestj, bestsize)))"

text \<open>
  Bounds of the match found: it lies in \<open>a[alo:ahi]\<close> and in \<open>b[blo:bhi]\<close>.  They make
  the natural-number subtraction above exact, keep the ranges that
  \<open>get_matching_blocks\<close> asks for inside the two sequences, and make its loop
  terminate.
\<close>

definition lengths_fit :: "nat \<Rightarrow> nat \<Rightarrow> nat \<Rightarrow> (nat \<rightharpoonup> nat) \<Rightarrow> bool" where
  \<comment> \<open>every recorded match that ends at \<open>b[j]\<close> starts at \<open>alo\<close>, \<open>blo\<close> or later\<close>
  "lengths_fit alo blo i j2len = (\<forall>j k. j2len j = Some k \<longrightarrow> k + alo \<le> i \<and> k + blo \<le> Suc j)"

definition best_fits :: "nat \<Rightarrow> nat \<Rightarrow> nat \<Rightarrow> nat \<Rightarrow> nat \<times> nat \<times> nat \<Rightarrow> bool" where
  "best_fits alo blo i bhi best =
     (case best of (besti, bestj, bestsize) \<Rightarrow>
        alo \<le> besti \<and> blo \<le> bestj \<and> besti + bestsize \<le> i \<and> bestj + bestsize \<le> bhi)"

lemma j2lenget_fits:
  assumes "lengths_fit alo blo i j2len" and "alo \<le> i" and "blo \<le> j"
  shows "j2lenget j2len (int j - 1) + 1 + alo \<le> Suc i \<and> j2lenget j2len (int j - 1) + 1 + blo \<le> Suc j"
proof (cases j)
  case 0
  then show ?thesis using assms by (simp add: j2lenget_def)
next
  case (Suc j')
  then have "j2lenget j2len (int j - 1) = (case j2len j' of None \<Rightarrow> 0 | Some k \<Rightarrow> k)"
    by (simp add: j2lenget_def)
  then show ?thesis using assms Suc
    by (auto simp: lengths_fit_def split: option.splits)
qed

lemma j_loop_fits:
  assumes "lengths_fit alo blo i j2len" and "alo \<le> i"
    and "lengths_fit alo blo (Suc i) new" and "best_fits alo blo (Suc i) bhi best"
    and "j_loop j2len i blo bhi js (new, best) = (new', best')"
  shows "lengths_fit alo blo (Suc i) new' \<and> best_fits alo blo (Suc i) bhi best'"
  using assms(3-5)
proof (induction js arbitrary: new best)
  case Nil
  then show ?case by simp
next
  case (Cons j js)
  obtain besti bestj bestsize where best: "best = (besti, bestj, bestsize)"
    by (cases best) auto
  let ?k = "j2lenget j2len (int j - 1) + 1"
  show ?case
  proof (cases "j < blo \<or> bhi \<le> j")
    case True
    then show ?thesis using Cons best by (cases "j < blo") auto
  next
    case False
    then have k: "?k + alo \<le> Suc i" "?k + blo \<le> Suc j"
      using j2lenget_fits[OF assms(1,2), of j] by auto
    have new: "lengths_fit alo blo (Suc i) (new(j \<mapsto> ?k))"
      using k Cons.prems(1) by (auto simp: lengths_fit_def)
    show ?thesis
    proof (cases "bestsize < ?k")
      case True
      have "best_fits alo blo (Suc i) bhi (i + 1 - ?k, j + 1 - ?k, ?k)"
        using k False by (auto simp: best_fits_def)
      moreover have "j_loop j2len i blo bhi js (new(j \<mapsto> ?k), i + 1 - ?k, j + 1 - ?k, ?k) = (new', best')"
        using Cons.prems(3) best False True by (simp add: Let_def)
      ultimately show ?thesis using Cons.IH new by blast
    next
      case nt: False
      have "j_loop j2len i blo bhi js (new(j \<mapsto> ?k), best) = (new', best')"
        using Cons.prems(3) best False nt by (simp add: Let_def)
      then show ?thesis using Cons.IH new Cons.prems(2) by blast
    qed
  qed
qed

lemma i_loop_fits:
  assumes "ir = [i..<ahi]" and "alo \<le> i" and "i \<le> ahi"
    and "lengths_fit alo blo i j2len" and "best_fits alo blo i bhi best"
    and "i_loop a b blo bhi ir (j2len, best) = (j2len', best')"
  shows "best_fits alo blo ahi bhi best'"
  using assms
proof (induction ir arbitrary: i j2len best)
  case Nil
  have "ahi \<le> i" using Nil.prems(1)[symmetric] by auto
  then show ?case using Nil by simp
next
  case (Cons x xs)
  have lt: "i < ahi" and x: "x = i" and xs: "xs = [Suc i..<ahi]"
    using Cons.prems(1)[symmetric] by (auto simp: upt_eq_Cons_conv)
  obtain besti bestj bestsize where best: "best = (besti, bestj, bestsize)"
    by (cases best) auto
  obtain n bst where jl: "j_loop j2len i blo bhi (b2j b (a ! i)) (Map.empty, best) = (n, bst)"
    by (cases "j_loop j2len i blo bhi (b2j b (a ! i)) (Map.empty, best)") auto
  have "best_fits alo blo (Suc i) bhi best"
    using Cons.prems(5) best by (simp add: best_fits_def)
  moreover have "lengths_fit alo blo (Suc i) Map.empty"
    by (simp add: lengths_fit_def)
  ultimately have "lengths_fit alo blo (Suc i) n \<and> best_fits alo blo (Suc i) bhi bst"
    using j_loop_fits[OF Cons.prems(4) Cons.prems(2) _ _ jl] by simp
  moreover have "i_loop a b blo bhi xs (n, bst) = (j2len', best')"
    using Cons.prems(6) jl x best by simp
  ultimately show ?case using Cons.IH[OF xs, of n bst] lt Cons.prems(2) by simp
qed

lemma grow_left_fits:
  "grow_left a b alo blo (besti, bestj, bestsize) = (i, j, k) \<Longrightarrow>
   alo \<le> besti \<Longrightarrow> blo \<le> bestj \<Longrightarrow>
   alo \<le> i \<and> blo \<le> j \<and> i + k = besti + bestsize \<and> j + k = bestj + bestsize"
proof (induction a b alo blo "(besti, bestj, bestsize)" arbitrary: besti bestj bestsize
       rule: grow_left.induct)
  case (1 a b alo blo besti bestj bestsize)
  show ?case
  proof (cases "alo < besti \<and> blo < bestj \<and> a ! (besti - 1) = b ! (bestj - 1)")
    case True
    then have "grow_left a b alo blo (besti - 1, bestj - 1, bestsize + 1) = (i, j, k)"
      using "1.prems"(1) by (subst (asm) grow_left.simps) simp
    from "1.hyps"[OF True this] True show ?thesis by auto
  next
    case False
    then show ?thesis using "1.prems" by (subst (asm) grow_left.simps) auto
  qed
qed

lemma grow_right_fits:
  "grow_right a b ahi bhi (besti, bestj, bestsize) = (i, j, k) \<Longrightarrow>
   besti + bestsize \<le> ahi \<Longrightarrow> bestj + bestsize \<le> bhi \<Longrightarrow>
   i = besti \<and> j = bestj \<and> i + k \<le> ahi \<and> j + k \<le> bhi"
proof (induction a b ahi bhi "(besti, bestj, bestsize)" arbitrary: besti bestj bestsize
       rule: grow_right.induct)
  case (1 a b ahi bhi besti bestj bestsize)
  show ?case
  proof (cases "besti + bestsize < ahi \<and> bestj + bestsize < bhi
                \<and> a ! (besti + bestsize) = b ! (bestj + bestsize)")
    case True
    then have "grow_right a b ahi bhi (besti, bestj, bestsize + 1) = (i, j, k)"
      using "1.prems"(1) by (subst (asm) grow_right.simps) simp
    from "1.hyps"[OF True this] True show ?thesis by simp
  next
    case False
    then show ?thesis using "1.prems" by (subst (asm) grow_right.simps) auto
  qed
qed

lemma find_longest_match_bounds:
  assumes "find_longest_match a b alo ahi blo bhi = (i, j, k)" and "alo \<le> ahi" and "blo \<le> bhi"
  shows "alo \<le> i \<and> i + k \<le> ahi \<and> blo \<le> j \<and> j + k \<le> bhi"
proof -
  obtain m bi bj bs where il:
    "i_loop a b blo bhi [alo..<ahi] (Map.empty, alo, blo, 0) = (m, bi, bj, bs)"
    by (metis prod_cases4)
  have "best_fits alo blo ahi bhi (bi, bj, bs)"
    using i_loop_fits[OF refl _ assms(2) _ _ il, of alo] assms(3)
    by (simp add: lengths_fit_def best_fits_def)
  then have 1: "alo \<le> bi" "blo \<le> bj" "bi + bs \<le> ahi" "bj + bs \<le> bhi"
    by (simp_all add: best_fits_def)
  obtain i1 j1 k1 where gl: "grow_left a b alo blo (bi, bj, bs) = (i1, j1, k1)"
    by (metis prod_cases3)
  have 2: "alo \<le> i1 \<and> blo \<le> j1 \<and> i1 + k1 = bi + bs \<and> j1 + k1 = bj + bs"
    using grow_left_fits[OF gl] 1 by simp
  have "grow_right a b ahi bhi (i1, j1, k1) = (i, j, k)"
    using assms(1) il gl by (simp add: find_longest_match_def)
  from grow_right_fits[OF this] 1 2 show ?thesis by simp
qed

lemma j_loop_empty:
  "bhi \<le> blo \<Longrightarrow>
   snd (j_loop j2len i blo bhi js (new, besti, bestj, bestsize)) = (besti, bestj, bestsize)"
  by (induction js arbitrary: new) auto

lemma i_loop_empty: "bhi \<le> blo \<Longrightarrow> snd (i_loop a b blo bhi ir (j2len, best)) = best"
proof (induction ir arbitrary: j2len)
  case Nil
  then show ?case by simp
next
  case (Cons i ir)
  obtain besti bestj bestsize where best: "best = (besti, bestj, bestsize)"
    by (cases best) auto
  obtain n where "j_loop j2len i blo bhi (b2j b (a ! i)) (Map.empty, best) = (n, best)"
    using j_loop_empty[OF Cons.prems, of j2len i "b2j b (a ! i)" Map.empty besti bestj bestsize]
    by (cases "j_loop j2len i blo bhi (b2j b (a ! i)) (Map.empty, best)") (auto simp: best)
  then show ?case using Cons best by simp
qed

lemma find_longest_match_empty:
  assumes "find_longest_match a b alo ahi blo bhi = (i, j, k)" and "ahi \<le> alo \<or> bhi \<le> blo"
  shows "k = 0"
proof (cases "ahi \<le> alo")
  case True
  then show ?thesis using assms(1)
    by (simp add: find_longest_match_def grow_left.simps[of a b alo blo alo]
        grow_right.simps[of a b ahi bhi alo])
next
  case False
  then have "bhi \<le> blo" using assms(2) by simp
  from i_loop_empty[OF this, of a b "[alo..<ahi]" Map.empty "(alo, blo, 0)"]
  obtain m where "i_loop a b blo bhi [alo..<ahi] (Map.empty, alo, blo, 0) = (m, alo, blo, 0)"
    by (cases "i_loop a b blo bhi [alo..<ahi] (Map.empty, alo, blo, 0)") auto
  then show ?thesis using assms(1) \<open>bhi \<le> blo\<close>
    by (simp add: find_longest_match_def grow_left.simps[of a b alo blo alo]
        grow_right.simps[of a b ahi bhi alo])
qed

text \<open>
  \<open>get_matching_blocks\<close>: the \<open>while queue\<close> loop.  \<open>queue.pop()\<close> takes the element
  appended last, so the head of the list is the top of the stack.  The sorting and the
  merging of adjacent blocks that follow the loop keep the sum of the sizes, which is
  all that \<open>ratio\<close> reads.
\<close>

function blocks_loop ::
  "string \<Rightarrow> string \<Rightarrow> (nat \<times> nat \<times> nat \<times> nat) list \<Rightarrow> (nat \<times> nat \<times> nat) list \<Rightarrow>
   (nat \<times> nat \<times> nat) list" where
  "blocks_loop a b [] matching_blocks = matching_blocks"
| "blocks_loop a b ((alo, ahi, blo, bhi) # queue) matching_blocks =
     (case find_longest_match a b alo ahi blo bhi of
        (i, j, k) \<Rightarrow>
          if k \<noteq> 0
          then blocks_loop a b
                 ((if i + k < ahi \<and> j + k < bhi then [(i + k, ahi, j + k, bhi)] else []) @
                  (if alo < i \<and> blo < j then [(alo, i, blo, j)] else []) @ queue)
                 (matching_blocks @ [(i, j, k)])
          else blocks_loop a b queue matching_blocks)"
  by pat_completeness auto
termination
proof (relation "measure (\<lambda>(a, b, queue, mb). sum_list (map (\<lambda>(alo, ahi, blo, bhi). 2 * (ahi - alo) + 1) queue))", goal_cases)
  case 1
  show ?case by simp
next
  case (2 a b alo ahi blo bhi queue matching_blocks i y j k)
  have k: "k \<noteq> 0" using 2 by simp
  have f: "find_longest_match a b alo ahi blo bhi = (i, j, k)" using 2 by simp
  have "alo < ahi \<and> blo < bhi" using find_longest_match_empty[OF f] k by force
  with find_longest_match_bounds[OF f] have "alo \<le> i" "i + k \<le> ahi" by auto
  with k show ?case by auto
next
  case 3
  then show ?case by simp
qed

definition get_matching_blocks :: "string \<Rightarrow> string \<Rightarrow> (nat \<times> nat \<times> nat) list" where
  "get_matching_blocks a b = blocks_loop a b [(0, length a, 0, length b)] []"

text \<open>\<^verbatim>\<open>_calculate_ratio(matches, len(a) + len(b))\<close>; the float is read as a real number.\<close>

definition ratio :: "string \<Rightarrow> string \<Rightarrow> real" where
  "ratio a b =
     (let matches = sum_list (map (\<lambda>(i, j, k). k) (get_matching_blocks a b));
          len = length a + length b
      in if len \<noteq> 0 then 2 * real matches / real len else 1)"


section \<open>Phase 2: the best fuzzy match\<close>

text \<open>
  \<^verbatim>\<open>adjusted_ratio = (len(line) - 5) ** 0.5 * matcher.ratio()\<close>.
  In Python 3 a negative integer raised to the power \<open>0.5\<close> is a \<open>complex\<close>, and so is
  its product with a float; otherwise the power is the float square root.  Floats are
  read as real numbers: the rounding of the square root, of the division and of the
  product is not modelled.
\<close>

datatype pynum = PyFloat real | PyComplex complex

definition pow_half :: "int \<Rightarrow> pynum" where
  "pow_half n = (if n < 0 then PyComplex (csqrt (of_int n)) else PyFloat (sqrt (of_int n)))"

definition times_float :: "pynum \<Rightarrow> real \<Rightarrow> pynum" where
  "times_float x r =
     (case x of PyFloat y \<Rightarrow> PyFloat (y * r) | PyComplex z \<Rightarrow> PyComplex (z * of_real r))"

definition adjusted_ratio :: "string \<Rightarrow> string \<Rightarrow> pynum" where
  \<comment> \<open>\<open>a\<close> is the matcher's first sequence, \<open>search_value.lower()\<close>\<close>
  "adjusted_ratio a line = times_float (pow_half (int (length line) - 5)) (ratio a (str_lower line))"

text \<open>
  The loop \<^verbatim>\<open>for index, line in enumerate(zen_lines)\<close> on the state
  \<open>(best_match, match_index, best_ratio)\<close>.  \<^verbatim>\<open>adjusted_ratio > best_ratio\<close> raises
  \<open>TypeError\<close> when the left side is a \<open>complex\<close>; \<open>best_ratio\<close> is \<open>0\<close> or an earlier
  float.
\<close>

fun best_loop ::
  "string \<Rightarrow> nat \<Rightarrow> string list \<Rightarrow> string \<times> nat \<times> real \<Rightarrow> error + string \<times> nat \<times> real" where
  "best_loop a index [] st = Inr st"
| "best_loop a index (line # rest) (best_match, match_index, best_ratio) =
     (case adjusted_ratio a line of
        PyComplex z \<Rightarrow> Inl TypeError
      | PyFloat x \<Rightarrow>
          if best_ratio < x then best_loop a (Suc index) rest (line, index, x)
          else best_loop a (Suc index) rest (best_match, match_index, best_ratio))"

section \<open>The selection\<close>

text \<open>
  The body of \<open>zen\<close> after \<open>zen_lines\<close> is set: the branch for an integer, then the two
  phases for a string.  \<^verbatim>\<open>if not best_match\<close> tests the best line for emptiness.
\<close>

fun resolve :: "string list \<Rightarrow> selector \<Rightarrow> error + match_result" where
  "resolve zen_lines (Index search_value) =
     (let upper_bound = int (length zen_lines) - 1;
          lower_bound = -1 * int (length zen_lines)
      in if \<not> (lower_bound \<le> search_value \<and> search_value \<le> upper_bound)
         then Inl (OutOfRange lower_bound upper_bound)
         else (case py_mod search_value (int (length zen_lines)) of
                 Inl e \<Rightarrow> Inl e
               | Inr n \<Rightarrow>
                   (case getitem zen_lines search_value of
                      Inl e \<Rightarrow> Inl e
                    | Inr line \<Rightarrow> Inr \<lparr>result_index = n, result_line = line\<rparr>)))"
| "resolve zen_lines (Query search_value) =
     (case line_loop search_value 0 zen_lines of
        Some r \<Rightarrow> Inr r
      | None \<Rightarrow>
          (case best_loop (str_lower search_value) 0 zen_lines ([], 0, 0) of
             Inl e \<Rightarrow> Inl e
           | Inr (best_match, match_index, best_ratio) \<Rightarrow>
               if best_match = [] then Inl NoMatch
               else Inr \<lparr>result_index = int match_index, result_line = best_match\<rparr>))"

text \<open>The text of the command, \<^verbatim>\<open>ZEN_OF_PYTHON.splitlines()\<close>, and the command itself.\<close>

definition ZEN_OF_PYTHON :: "string list" where
  "ZEN_OF_PYTHON =
    [''Beautiful is better than ugly.'',
     ''Explicit is better than implicit.'',
     ''Simple is better than complex.'',
     ''Complex is better than complicated.'',
     ''Flat is better than nested.'',
     ''Sparse is better than dense.'',
     ''Readability counts.'',
     ''Special cases aren'' @ [CHR 0x27] @ ''t special enough to break the rules.'',
     ''Although practicality beats purity.'',
     ''Errors should never pass silently.'',
     ''Unless explicitly silenced.'',
     ''In the face of ambiguity, refuse the temptation to guess.'',
     ''There should be one-- and preferably only one --obvious way to do it.'',
     ''Although that way may not be obvious at first unless you'' @ [CHR 0x27] @ ''re Dutch.'',
     ''Now is better than never.'',
     ''Although never is often better than *right* now.'',
     ''If the implementation is hard to explain, it'' @ [CHR 0x27] @ ''s a bad idea.'',
     ''If the implementation is easy to explain, it may be a good idea.'',
     ''Namespaces are one honking great idea -- let'' @ [CHR 0x27] @ ''s do more of those!'']"

datatype reply = Full_Zen | Zen_Line match_result

definition zen :: "selector option \<Rightarrow> error + reply" where
  "zen search_value =
     (case search_value of
        None \<Rightarrow> Inr Full_Zen
      | Some v \<Rightarrow>
          (case resolve ZEN_OF_PYTHON v of Inl e \<Rightarrow> Inl e | Inr r \<Rightarrow> Inr (Zen_Line r)))"

section \<open>The specification's notions\<close>

text \<open>
  The glossary's exact whole-word match: a case-insensitive equality between the query
  and one whitespace-delimited word of the line.
\<close>

definition exact_word :: "string \<Rightarrow> string \<Rightarrow> bool" where
  "exact_word s line = (\<exists>word \<in> set (split line). str_lower word = str_lower s)"

text \<open>
  The specification's adjusted score,
  \<^verbatim>\<open>adjustedScore = sqrt(max(len(line) - 5, 0)) * rawRatio\<close>, the raw ratio being that of
  the lowercased query and the lowercased line.
\<close>

definition adjusted_score :: "string \<Rightarrow> string \<Rightarrow> real" where
  "adjusted_score s line =
     sqrt (of_int (max (int (length line) - 5) 0)) * ratio (str_lower s) (str_lower line)"

section \<open>Phase 1 finds the first line with an exact word\<close>

lemma word_loop_iff: "word_loop s ws = (\<exists>w \<in> set ws. str_lower w = str_lower s)"
  by (induction ws) auto

lemma word_loop_exact: "word_loop s (split l) = exact_word s l"
  by (simp add: word_loop_iff exact_word_def)

lemma line_loop_cases:
  "(\<forall>l \<in> set ls. \<not> exact_word s l) \<and> line_loop s i ls = None \<or>
   (\<exists>k < length ls. exact_word s (ls ! k) \<and> (\<forall>m < k. \<not> exact_word s (ls ! m)) \<and>
      line_loop s i ls = Some \<lparr>result_index = int (i + k), result_line = ls ! k\<rparr>)"
proof (induction ls arbitrary: i)
  case Nil
  then show ?case by simp
next
  case (Cons l ls)
  show ?case
  proof (cases "exact_word s l")
    case True
    then have "line_loop s i (l # ls) = Some \<lparr>result_index = int (i + 0), result_line = (l # ls) ! 0\<rparr>"
      by (simp add: word_loop_exact)
    with True show ?thesis by (intro disjI2 exI[of _ 0]) simp
  next
    case False
    from Cons.IH[of "Suc i"] show ?thesis
    proof
      assume "(\<forall>l \<in> set ls. \<not> exact_word s l) \<and> line_loop s (Suc i) ls = None"
      with False show ?thesis by (simp add: word_loop_exact)
    next
      assume "\<exists>k < length ls. exact_word s (ls ! k) \<and> (\<forall>m < k. \<not> exact_word s (ls ! m)) \<and>
        line_loop s (Suc i) ls = Some \<lparr>result_index = int (Suc i + k), result_line = ls ! k\<rparr>"
      then obtain k where k: "k < length ls" "exact_word s (ls ! k)" "\<forall>m < k. \<not> exact_word s (ls ! m)"
        "line_loop s (Suc i) ls = Some \<lparr>result_index = int (Suc i + k), result_line = ls ! k\<rparr>"
        by blast
      have "\<forall>m < Suc k. \<not> exact_word s ((l # ls) ! m)"
        using False k(3) by (auto simp: less_Suc_eq_0_disj)
      moreover have "line_loop s i (l # ls) = Some \<lparr>result_index = int (i + Suc k), result_line = (l # ls) ! Suc k\<rparr>"
        using False k(4) by (simp add: word_loop_exact)
      ultimately show ?thesis using k(1,2) by (intro disjI2 exI[of _ "Suc k"]) simp
    qed
  qed
qed

lemma line_loop_None_iff: "line_loop s i ls = None \<longleftrightarrow> (\<forall>l \<in> set ls. \<not> exact_word s l)"
  using line_loop_cases[of ls s i] by (force simp: all_set_conv_all_nth)

lemma line_loop_lower: "str_lower u = str_lower s \<Longrightarrow> line_loop u i ls = line_loop s i ls"
proof (induction ls arbitrary: i)
  case Nil
  then show ?case by simp
next
  case (Cons l ls)
  then show ?case by (simp add: word_loop_iff)
qed

lemma split_from_nonempty: "w \<in> set (split_from cur cs) \<Longrightarrow> w \<noteq> []"
  by (induction cs arbitrary: cur) (auto split: if_splits)

lemma split_from_subset: "w \<in> set (split_from cur cs) \<Longrightarrow> set w \<subseteq> set cur \<union> set cs"
proof (induction cs arbitrary: cur)
  case Nil
  then show ?case by (auto split: if_splits)
next
  case (Cons c cs)
  show ?case
  proof (cases "isspace c")
    case True
    then have "w = cur \<or> w \<in> set (split_from [] cs)"
      using Cons.prems by (auto split: if_splits)
    then show ?thesis using Cons.IH[of "[]"] by auto
  next
    case False
    then have "w \<in> set (split_from (cur @ [c]) cs)" using Cons.prems by simp
    from Cons.IH[OF this] show ?thesis by auto
  qed
qed

lemma split_nonempty: "w \<in> set (split l) \<Longrightarrow> w \<noteq> []"
  unfolding split_def by (rule split_from_nonempty)

lemma split_subset: "w \<in> set (split l) \<Longrightarrow> set w \<subseteq> set l"
  using split_from_subset[of w "[]" l] by (simp add: split_def)

lemma exact_word_shares:
  assumes "exact_word s l"
  shows "str_lower s \<noteq> [] \<and> set (str_lower s) \<subseteq> set (str_lower l)"
proof -
  from assms obtain w where w: "w \<in> set (split l)" "str_lower w = str_lower s"
    by (auto simp: exact_word_def)
  have "w \<noteq> []" using split_nonempty[OF w(1)] .
  then have "str_lower s \<noteq> []" using w(2) by (auto simp: str_lower_def)
  moreover have "set (str_lower w) \<subseteq> set (str_lower l)"
    using split_subset[OF w(1)] by (auto simp: str_lower_def)
  ultimately show ?thesis using w(2) by simp
qed

section \<open>Scores\<close>

text \<open>Sequences without a common element have no matching block.\<close>

lemma b2j_absent: "elt \<notin> set b \<Longrightarrow> b2j b elt = []"
  by (auto simp: b2j_def filter_empty_conv)

lemma i_loop_absent:
  "\<forall>i \<in> set ir. b2j b (a ! i) = [] \<Longrightarrow> snd (i_loop a b blo bhi ir (j2len, best)) = best"
proof (induction ir arbitrary: j2len)
  case Nil
  then show ?case by simp
next
  case (Cons i ir)
  obtain besti bestj bestsize where best: "best = (besti, bestj, bestsize)"
    by (cases best) auto
  show ?case using Cons by (simp add: best)
qed

lemma find_longest_match_disjoint:
  assumes "set a \<inter> set b = {}" and "ahi \<le> length a" and "bhi \<le> length b"
  shows "find_longest_match a b alo ahi blo bhi = (alo, blo, 0)"
proof -
  have "\<forall>i \<in> set [alo..<ahi]. b2j b (a ! i) = []"
  proof
    fix i assume "i \<in> set [alo..<ahi]"
    then have "a ! i \<in> set a" using assms(2) by simp
    then have "a ! i \<notin> set b" using assms(1) by auto
    then show "b2j b (a ! i) = []" by (rule b2j_absent)
  qed
  from i_loop_absent[OF this, of blo bhi Map.empty "(alo, blo, 0)"]
  obtain m where il: "i_loop a b blo bhi [alo..<ahi] (Map.empty, alo, blo, 0) = (m, alo, blo, 0)"
    by (cases "i_loop a b blo bhi [alo..<ahi] (Map.empty, alo, blo, 0)") auto
  have gl: "grow_left a b alo blo (alo, blo, 0) = (alo, blo, 0)"
    by (simp add: grow_left.simps[of a b alo blo alo])
  have "alo < ahi \<Longrightarrow> blo < bhi \<Longrightarrow> a ! alo \<noteq> b ! blo"
    using assms by (metis disjoint_iff less_le_trans nth_mem)
  then have gr: "grow_right a b ahi bhi (alo, blo, 0) = (alo, blo, 0)"
    by (auto simp: grow_right.simps[of a b ahi bhi alo])
  show ?thesis by (simp add: find_longest_match_def il gl gr)
qed

lemma get_matching_blocks_disjoint:
  "set a \<inter> set b = {} \<Longrightarrow> get_matching_blocks a b = []"
  by (simp add: get_matching_blocks_def find_longest_match_disjoint)

lemma ratio_disjoint: "set a \<inter> set b = {} \<Longrightarrow> b \<noteq> [] \<Longrightarrow> ratio a b = 0"
  by (simp add: ratio_def get_matching_blocks_disjoint)

lemma ratio_nonneg: "0 \<le> ratio a b"
  by (simp add: ratio_def Let_def)

lemma adjusted_ratio_float:
  "5 \<le> length l \<Longrightarrow> adjusted_ratio (str_lower s) l = PyFloat (adjusted_score s l)"
  by (simp add: adjusted_ratio_def adjusted_score_def pow_half_def times_float_def max_def)

lemma adjusted_ratio_complex:
  "length l < 5 \<Longrightarrow> \<exists>z. adjusted_ratio a l = PyComplex z"
  by (simp add: adjusted_ratio_def pow_half_def times_float_def)

lemma adjusted_score_nonneg: "0 \<le> adjusted_score s l"
  by (simp add: adjusted_score_def ratio_nonneg)

lemma adjusted_score_five: "length l = 5 \<Longrightarrow> adjusted_score s l = 0"
  by (simp add: adjusted_score_def)

lemma adjusted_score_disjoint:
  "set (str_lower s) \<inter> set (str_lower l) = {} \<Longrightarrow> l \<noteq> [] \<Longrightarrow> adjusted_score s l = 0"
  by (simp add: adjusted_score_def ratio_disjoint str_lower_def)

lemma best_loop_complex:
  "l \<in> set ls \<Longrightarrow> adjusted_ratio a l = PyComplex z \<Longrightarrow> best_loop a i ls st = Inl TypeError"
proof (induction ls arbitrary: i st)
  case Nil
  then show ?case by simp
next
  case (Cons x xs)
  obtain bm mi br where st: "st = (bm, mi, br)" by (cases st) auto
  show ?case
  proof (cases "adjusted_ratio a x")
    case (PyFloat y)
    then have "x \<noteq> l" using Cons.prems(2) by auto
    then have "l \<in> set xs" using Cons.prems(1) by simp
    from Cons.IH[OF this Cons.prems(2)] show ?thesis using PyFloat st by simp
  next
    case (PyComplex z')
    then show ?thesis using st by simp
  qed
qed

lemma best_loop_cases:
  assumes "\<forall>l \<in> set ls. adjusted_ratio a l = PyFloat (f l)"
  shows "(\<forall>l \<in> set ls. f l \<le> br) \<and> best_loop a i ls (bm, mi, br) = Inr (bm, mi, br) \<or>
         (\<exists>k < length ls. br < f (ls ! k) \<and> (\<forall>m < length ls. f (ls ! m) \<le> f (ls ! k)) \<and>
            (\<forall>m < k. f (ls ! m) < f (ls ! k)) \<and>
            best_loop a i ls (bm, mi, br) = Inr (ls ! k, i + k, f (ls ! k)))"
  using assms
proof (induction ls arbitrary: i bm mi br)
  case Nil
  then show ?case by simp
next
  case (Cons x xs)
  have x: "adjusted_ratio a x = PyFloat (f x)" using Cons.prems by simp
  have xs: "\<forall>l \<in> set xs. adjusted_ratio a l = PyFloat (f l)" using Cons.prems by simp
  show ?case
  proof (cases "br < f x")
    case True
    then have step: "best_loop a i (x # xs) (bm, mi, br) = best_loop a (Suc i) xs (x, i, f x)"
      using x by simp
    from Cons.IH[OF xs, of "f x" "Suc i" x i] show ?thesis
    proof
      assume h: "(\<forall>l \<in> set xs. f l \<le> f x) \<and> best_loop a (Suc i) xs (x, i, f x) = Inr (x, i, f x)"
      have "\<forall>m < length (x # xs). f ((x # xs) ! m) \<le> f ((x # xs) ! 0)"
        using h by (auto simp: nth_Cons split: nat.splits)
      then show ?thesis using True step h by (intro disjI2 exI[of _ 0]) simp
    next
      assume "\<exists>k < length xs. f x < f (xs ! k) \<and> (\<forall>m < length xs. f (xs ! m) \<le> f (xs ! k)) \<and>
            (\<forall>m < k. f (xs ! m) < f (xs ! k)) \<and>
            best_loop a (Suc i) xs (x, i, f x) = Inr (xs ! k, Suc i + k, f (xs ! k))"
      then obtain k where k: "k < length xs" "f x < f (xs ! k)"
        "\<forall>m < length xs. f (xs ! m) \<le> f (xs ! k)" "\<forall>m < k. f (xs ! m) < f (xs ! k)"
        "best_loop a (Suc i) xs (x, i, f x) = Inr (xs ! k, Suc i + k, f (xs ! k))" by blast
      have "\<forall>m < length (x # xs). f ((x # xs) ! m) \<le> f ((x # xs) ! Suc k)"
        using k(2,3) by (auto simp: nth_Cons split: nat.splits)
      moreover have "\<forall>m < Suc k. f ((x # xs) ! m) < f ((x # xs) ! Suc k)"
        using k(2,4) by (auto simp: nth_Cons split: nat.splits)
      moreover have "br < f ((x # xs) ! Suc k)" using True k(2) by simp
      ultimately show ?thesis using step k(1,5) by (intro disjI2 exI[of _ "Suc k"]) simp
    qed
  next
    case False
    then have step: "best_loop a i (x # xs) (bm, mi, br) = best_loop a (Suc i) xs (bm, mi, br)"
      using x by simp
    from Cons.IH[OF xs, of br "Suc i" bm mi] show ?thesis
    proof
      assume "(\<forall>l \<in> set xs. f l \<le> br) \<and> best_loop a (Suc i) xs (bm, mi, br) = Inr (bm, mi, br)"
      then show ?thesis using False step by auto
    next
      assume "\<exists>k < length xs. br < f (xs ! k) \<and> (\<forall>m < length xs. f (xs ! m) \<le> f (xs ! k)) \<and>
            (\<forall>m < k. f (xs ! m) < f (xs ! k)) \<and>
            best_loop a (Suc i) xs (bm, mi, br) = Inr (xs ! k, Suc i + k, f (xs ! k))"
      then obtain k where k: "k < length xs" "br < f (xs ! k)"
        "\<forall>m < length xs. f (xs ! m) \<le> f (xs ! k)" "\<forall>m < k. f (xs ! m) < f (xs ! k)"
        "best_loop a (Suc i) xs (bm, mi, br) = Inr (xs ! k, Suc i + k, f (xs ! k))" by blast
      have fx: "f x < f (xs ! k)" using False k(2) by simp
      have "\<forall>m < length (x # xs). f ((x # xs) ! m) \<le> f ((x # xs) ! Suc k)"
        using fx k(3) by (auto simp: nth_Cons split: nat.splits)
      moreover have "\<forall>m < Suc k. f ((x # xs) ! m) < f ((x # xs) ! Suc k)"
        using fx k(4) by (auto simp: nth_Cons split: nat.splits)
      ultimately show ?thesis using step k(1,2,5) by (intro disjI2 exI[of _ "Suc k"]) simp
    qed
  qed
qed

section \<open>The three outcomes of phase 2\<close>

lemma phase2_cases:
  assumes "line_loop s 0 corpus = None"
  shows
   "(\<exists>l \<in> set corpus. length l < 5) \<and> resolve corpus (Query s) = Inl TypeError \<or>
    (\<forall>l \<in> set corpus. 5 \<le> length l) \<and> (\<forall>l \<in> set corpus. adjusted_score s l \<le> 0) \<and>
      resolve corpus (Query s) = Inl NoMatch \<or>
    (\<forall>l \<in> set corpus. 5 \<le> length l) \<and>
      (\<exists>k < length corpus. 0 < adjusted_score s (corpus ! k) \<and>
         (\<forall>m < length corpus. adjusted_score s (corpus ! m) \<le> adjusted_score s (corpus ! k)) \<and>
         (\<forall>m < k. adjusted_score s (corpus ! m) < adjusted_score s (corpus ! k)) \<and>
         resolve corpus (Query s) = Inr \<lparr>result_index = int k, result_line = corpus ! k\<rparr>)"
proof (cases "\<exists>l \<in> set corpus. length l < 5")
  case True
  then obtain l where l: "l \<in> set corpus" "length l < 5" by blast
  from adjusted_ratio_complex[OF l(2), of "str_lower s"] obtain z
    where "adjusted_ratio (str_lower s) l = PyComplex z" by blast
  from best_loop_complex[OF l(1) this] have "resolve corpus (Query s) = Inl TypeError"
    using assms by simp
  with True show ?thesis by blast
next
  case False
  then have long: "\<forall>l \<in> set corpus. 5 \<le> length l" by auto
  then have fl: "\<forall>l \<in> set corpus. adjusted_ratio (str_lower s) l = PyFloat (adjusted_score s l)"
    by (simp add: adjusted_ratio_float)
  from best_loop_cases[OF fl, of 0 0 "[]" 0] show ?thesis
  proof
    assume h: "(\<forall>l \<in> set corpus. adjusted_score s l \<le> 0) \<and>
      best_loop (str_lower s) 0 corpus ([], 0, 0) = Inr ([], 0, 0)"
    then have "resolve corpus (Query s) = Inl NoMatch" using assms by simp
    with h long show ?thesis by blast
  next
    assume "\<exists>k < length corpus. 0 < adjusted_score s (corpus ! k) \<and>
       (\<forall>m < length corpus. adjusted_score s (corpus ! m) \<le> adjusted_score s (corpus ! k)) \<and>
       (\<forall>m < k. adjusted_score s (corpus ! m) < adjusted_score s (corpus ! k)) \<and>
       best_loop (str_lower s) 0 corpus ([], 0, 0) =
         Inr (corpus ! k, 0 + k, adjusted_score s (corpus ! k))"
    then obtain k where k: "k < length corpus" "0 < adjusted_score s (corpus ! k)"
       "\<forall>m < length corpus. adjusted_score s (corpus ! m) \<le> adjusted_score s (corpus ! k)"
       "\<forall>m < k. adjusted_score s (corpus ! m) < adjusted_score s (corpus ! k)"
       "best_loop (str_lower s) 0 corpus ([], 0, 0) =
         Inr (corpus ! k, 0 + k, adjusted_score s (corpus ! k))" by blast
    have "5 \<le> length (corpus ! k)" using long k(1) by simp
    then have "corpus ! k \<noteq> []" by auto
    then have "resolve corpus (Query s) = Inr \<lparr>result_index = int k, result_line = corpus ! k\<rparr>"
      using assms k(5) by simp
    with k(1-4) long show ?thesis by blast
  qed
qed

lemma resolve_lower:
  "str_lower u = str_lower s \<Longrightarrow> resolve corpus (Query u) = resolve corpus (Query s)"
  by (cases "line_loop s 0 corpus") (simp_all add: line_loop_lower[of u s])

section \<open>Evaluation on concrete inputs\<close>

lemmas ev = isspace_def lower_char_def str_lower_def split_def py_mod_def getitem_def
  popular_def b2j_def j2lenget_def grow_left.simps grow_right.simps find_longest_match_def
  get_matching_blocks_def ratio_def pow_half_def times_float_def adjusted_ratio_def Let_def
  char_of_def bit_Suc_0_iff exact_word_def adjusted_score_def upper_char_def

section \<open>Selection by index\<close>

text \<open>
  The integer branch.  Inside the bounds the divisor of \<open>%\<close> is positive and the
  subscript is in range, so neither \<open>ZeroDivisionError\<close> nor \<open>IndexError\<close> is raised.
\<close>

lemma resolve_index_inside:
  assumes "- int (length corpus) \<le> n" and "n \<le> int (length corpus) - 1"
  shows "resolve corpus (Index n) =
     Inr \<lparr>result_index = n mod int (length corpus),
          result_line = corpus ! nat (n mod int (length corpus))\<rparr>"
proof (cases "0 \<le> n")
  case True
  then have "n mod int (length corpus) = n" using assms by simp
  then show ?thesis using assms True by (auto simp: py_mod_def getitem_def)
next
  case False
  then have "n mod int (length corpus) = int (length corpus) + n" using assms
    by (smt (verit) mod_add_self1 mod_pos_pos_trivial)
  then show ?thesis using assms False by (auto simp: py_mod_def getitem_def)
qed

lemma resolve_index_outside:
  "\<not> (- int (length corpus) \<le> n \<and> n \<le> int (length corpus) - 1) \<Longrightarrow>
   resolve corpus (Index n) = Inl (OutOfRange (- int (length corpus)) (int (length corpus) - 1))"
  by auto

text \<open>
  C3.  For a corpus of length \<open>L\<close> and an integer \<open>n\<close>: if \<open>-L \<le> n \<le> L-1\<close> then
  \<open>resolve(corpus, Index(n))\<close> returns the line at the normalised index
  \<open>((n % L) + L) % L\<close> together with that index; otherwise it fails with
  \<open>OutOfRange(-L, L-1)\<close>.  For a corpus of one line exactly \<open>Index(0)\<close> and
  \<open>Index(-1)\<close> succeed, and every other integer fails with \<open>OutOfRange(-1, 0)\<close>.
\<close>

theorem index_selection:
  "(- int (length corpus) \<le> n \<and> n \<le> int (length corpus) - 1 \<longrightarrow>
      resolve corpus (Index n) =
        Inr \<lparr>result_index = ((n mod int (length corpus)) + int (length corpus)) mod int (length corpus),
             result_line =
               corpus ! nat (((n mod int (length corpus)) + int (length corpus)) mod int (length corpus))\<rparr>) \<and>
   (\<not> (- int (length corpus) \<le> n \<and> n \<le> int (length corpus) - 1) \<longrightarrow>
      resolve corpus (Index n) = Inl (OutOfRange (- int (length corpus)) (int (length corpus) - 1))) \<and>
   (length corpus = 1 \<longrightarrow>
      ((\<exists>r. resolve corpus (Index n) = Inr r) \<longleftrightarrow> n = 0 \<or> n = -1) \<and>
      (n \<noteq> 0 \<and> n \<noteq> -1 \<longrightarrow> resolve corpus (Index n) = Inl (OutOfRange (-1) 0)))"
proof (intro conjI impI)
  assume "- int (length corpus) \<le> n \<and> n \<le> int (length corpus) - 1"
  then show "resolve corpus (Index n) =
        Inr \<lparr>result_index = ((n mod int (length corpus)) + int (length corpus)) mod int (length corpus),
             result_line =
               corpus ! nat (((n mod int (length corpus)) + int (length corpus)) mod int (length corpus))\<rparr>"
    using resolve_index_inside[of corpus n] by simp
next
  assume "\<not> (- int (length corpus) \<le> n \<and> n \<le> int (length corpus) - 1)"
  then show "resolve corpus (Index n) =
      Inl (OutOfRange (- int (length corpus)) (int (length corpus) - 1))"
    by (rule resolve_index_outside)
next
  assume one: "length corpus = 1"
  show "(\<exists>r. resolve corpus (Index n) = Inr r) \<longleftrightarrow> n = 0 \<or> n = -1"
  proof (cases "n = 0 \<or> n = -1")
    case True
    then show ?thesis using resolve_index_inside[of corpus n] one by auto
  next
    case False
    then show ?thesis using resolve_index_outside[of corpus n] one by auto
  qed
next
  assume "length corpus = 1" and "n \<noteq> 0 \<and> n \<noteq> -1"
  then show "resolve corpus (Index n) = Inl (OutOfRange (-1) 0)"
    using resolve_index_outside[of corpus n] by auto
qed

theorem index_selection_witness:
  "resolve [''one'', ''two'', ''three''] (Index (-1)) = Inr \<lparr>result_index = 2, result_line = ''three''\<rparr> \<and>
   resolve [''one'', ''two'', ''three''] (Index 1) = Inr \<lparr>result_index = 1, result_line = ''two''\<rparr> \<and>
   resolve [''one'', ''two'', ''three''] (Index 3) = Inl (OutOfRange (-3) 2) \<and>
   resolve [''only''] (Index (-1)) = Inr \<lparr>result_index = 0, result_line = ''only''\<rparr> \<and>
   resolve [''only''] (Index 7) = Inl (OutOfRange (-1) 0)"
  using index_selection[of "[''one'', ''two'', ''three'']" "-1"]
    index_selection[of "[''one'', ''two'', ''three'']" 1]
    index_selection[of "[''one'', ''two'', ''three'']" 3]
    index_selection[of "[''only'']" "-1"]
    index_selection[of "[''only'']" 7]
  by simp

section \<open>Selection by a query\<close>

text \<open>
  C2.  \<open>resolve(corpus, Query(s))\<close> returns the line and the index of the first line, in
  corpus order, that has a whitespace-delimited word equal to the query once both are
  lowercased.  The result does not depend on the fuzzy scores: phase 2 is not run, even
  where it would fail.  For the corpus \<open>["now is never", "Now is better than never."]\<close>
  and the query \<open>"now"\<close> the result is line 0.
\<close>

theorem exact_word_first:
  assumes "k < length corpus" and "exact_word s (corpus ! k)"
    and "\<forall>m < k. \<not> exact_word s (corpus ! m)"
  shows "resolve corpus (Query s) = Inr \<lparr>result_index = int k, result_line = corpus ! k\<rparr>"
proof -
  from line_loop_cases[of corpus s 0] show ?thesis
  proof
    assume "(\<forall>l \<in> set corpus. \<not> exact_word s l) \<and> line_loop s 0 corpus = None"
    then have "\<not> exact_word s (corpus ! k)" using assms(1) by simp
    with assms(2) show ?thesis by simp
  next
    assume "\<exists>j < length corpus. exact_word s (corpus ! j) \<and> (\<forall>m < j. \<not> exact_word s (corpus ! m)) \<and>
      line_loop s 0 corpus = Some \<lparr>result_index = int (0 + j), result_line = corpus ! j\<rparr>"
    then obtain j where j: "exact_word s (corpus ! j)" "\<forall>m < j. \<not> exact_word s (corpus ! m)"
      "line_loop s 0 corpus = Some \<lparr>result_index = int (0 + j), result_line = corpus ! j\<rparr>"
      by blast
    have "j = k" using j(1,2) assms(2,3) by (meson linorder_neqE_nat)
    then show ?thesis using j(3) by simp
  qed
qed

theorem exact_word_first_witness:
  "resolve [''now is never'', ''Now is better than never.''] (Query ''now'') =
     Inr \<lparr>result_index = 0, result_line = ''now is never''\<rparr> \<and>
   resolve [''ab'', ''Never now''] (Query ''NOW'') =
     Inr \<lparr>result_index = 1, result_line = ''Never now''\<rparr>"
proof -
  have a: "exact_word ''now'' ([''now is never'', ''Now is better than never.''] ! 0)"
    by (simp add: ev)
  have b: "exact_word ''NOW'' ([''ab'', ''Never now''] ! 1)"
    by (simp add: ev)
  have c: "\<forall>m < 1. \<not> exact_word ''NOW'' ([''ab'', ''Never now''] ! m)"
    by (simp add: ev)
  show ?thesis
    using exact_word_first[of 0 "[''now is never'', ''Now is better than never.'']" "''now''", OF _ a]
      exact_word_first[of 1 "[''ab'', ''Never now'']" "''NOW''", OF _ b c]
    by simp
qed

text \<open>
  C8.  Whenever \<open>resolve\<close> succeeds, on any of its three paths, the returned index is
  a position of the corpus and the returned line is the corpus element there.
\<close>

theorem result_consistent:
  assumes "resolve corpus sel = Inr r"
  shows "0 \<le> result_index r \<and> result_index r < int (length corpus) \<and>
         result_line r = corpus ! nat (result_index r)"
proof (cases sel)
  case (Index n)
  show ?thesis
  proof (cases "- int (length corpus) \<le> n \<and> n \<le> int (length corpus) - 1")
    case True
    then have "0 < int (length corpus)" by linarith
    then show ?thesis using resolve_index_inside[of corpus n] True assms Index by auto
  next
    case False
    from resolve_index_outside[OF this] show ?thesis using assms Index by simp
  qed
next
  case (Query s)
  show ?thesis
  proof (cases "line_loop s 0 corpus")
    case None
    from phase2_cases[OF None] show ?thesis using assms Query by auto
  next
    case (Some r')
    then have "r' = r" using assms Query by simp
    with Some line_loop_cases[of corpus s 0] show ?thesis by auto
  qed
qed

theorem result_consistent_witness:
  "resolve [''one'', ''two''] (Index (-1)) = Inr \<lparr>result_index = 1, result_line = ''two''\<rparr> \<and>
   ''two'' = [''one'', ''two''] ! nat 1 \<and>
   resolve [''ab'', ''Never now''] (Query ''NOW'') = Inr \<lparr>result_index = 1, result_line = ''Never now''\<rparr> \<and>
   ''Never now'' = [''ab'', ''Never now''] ! nat 1 \<and>
   resolve [''zzzzzz'', ''yabcyy''] (Query ''abc'') = Inr \<lparr>result_index = 1, result_line = ''yabcyy''\<rparr> \<and>
   ''yabcyy'' = [''zzzzzz'', ''yabcyy''] ! nat 1"
proof -
  have a: "resolve [''one'', ''two''] (Index (-1)) = Inr \<lparr>result_index = 1, result_line = ''two''\<rparr>"
    by (simp add: ev)
  have b: "resolve [''ab'', ''Never now''] (Query ''NOW'') = Inr \<lparr>result_index = 1, result_line = ''Never now''\<rparr>"
    by (simp add: ev)
  have c: "resolve [''zzzzzz'', ''yabcyy''] (Query ''abc'') = Inr \<lparr>result_index = 1, result_line = ''yabcyy''\<rparr>"
    by (simp add: ev)
  show ?thesis
    using a b c result_consistent[OF a] result_consistent[OF b] result_consistent[OF c]
    by simp
qed

section \<open>No match\<close>

lemma disjoint_no_exact_word:
  "set (str_lower s) \<inter> set (str_lower l) = {} \<Longrightarrow> \<not> exact_word s l"
  using exact_word_shares[of s l] by (cases "str_lower s") auto

lemma no_match_cases:
  "resolve corpus (Query s) = Inl NoMatch \<longleftrightarrow>
     (\<forall>l \<in> set corpus. \<not> exact_word s l) \<and> (\<forall>l \<in> set corpus. 5 \<le> length l) \<and>
     (\<forall>l \<in> set corpus. \<not> 0 < adjusted_score s l)"
    (is "?lhs \<longleftrightarrow> ?rhs")
proof
  assume l: ?lhs
  have none: "line_loop s 0 corpus = None"
    using l by (cases "line_loop s 0 corpus") auto
  then have "\<forall>l \<in> set corpus. \<not> exact_word s l" by (simp add: line_loop_None_iff)
  moreover from phase2_cases[OF none] l
  have "(\<forall>l \<in> set corpus. 5 \<le> length l) \<and> (\<forall>l \<in> set corpus. adjusted_score s l \<le> 0)"
    by auto
  ultimately show ?rhs by (auto simp: not_less)
next
  assume r: ?rhs
  then have none: "line_loop s 0 corpus = None" by (simp add: line_loop_None_iff)
  from phase2_cases[OF none] show ?lhs
  proof (elim disjE conjE)
    assume "\<exists>l \<in> set corpus. length l < 5"
    with r show ?thesis by force
  next
    assume "resolve corpus (Query s) = Inl NoMatch"
    then show ?thesis .
  next
    assume "\<exists>k < length corpus. 0 < adjusted_score s (corpus ! k) \<and>
         (\<forall>m < length corpus. adjusted_score s (corpus ! m) \<le> adjusted_score s (corpus ! k)) \<and>
         (\<forall>m < k. adjusted_score s (corpus ! m) < adjusted_score s (corpus ! k)) \<and>
         resolve corpus (Query s) = Inr \<lparr>result_index = int k, result_line = corpus ! k\<rparr>"
    then obtain k where "k < length corpus" "0 < adjusted_score s (corpus ! k)" by blast
    with r show ?thesis by (meson nth_mem)
  qed
qed

text \<open>
  The claim C6 as the specification states it fails where a line has fewer than five
  characters: no word matches and no score is positive, yet the comparison raises
  \<open>TypeError\<close> and \<open>NoMatch\<close> is not reported.  "Sharing no characters" has to be read
  after lowercasing: \<open>"A"\<close> and \<open>"aaaaaa"\<close> share none as written, and the line is
  returned.
\<close>

theorem no_match_short_line_counterexample:
  "\<not> exact_word ''x'' ''abc'' \<and> set (str_lower ''x'') \<inter> set (str_lower ''abc'') = {} \<and>
   \<not> 0 < adjusted_score ''x'' ''abc'' \<and>
   resolve [''abc''] (Query ''x'') = Inl TypeError \<and>
   resolve [''abc''] (Query ''x'') \<noteq> Inl NoMatch \<and>
   set ''A'' \<inter> set ''aaaaaa'' = {} \<and>
   resolve [''aaaaaa''] (Query ''A'') = Inr \<lparr>result_index = 0, result_line = ''aaaaaa''\<rparr>"
  by (simp add: ev)

text \<open>
  C6, amended.  \<open>resolve(corpus, Query(s))\<close> fails with \<open>NoMatch\<close> if and only if no
  exact whole-word match exists, every line has at least five characters, and no line
  has a strictly positive adjusted score.  In particular, when every line has at least
  five characters, a query that shares no character with any line once both are
  lowercased fails with \<open>NoMatch\<close>.
\<close>

theorem no_match_iff:
  "(resolve corpus (Query s) = Inl NoMatch \<longleftrightarrow>
      (\<forall>l \<in> set corpus. \<not> exact_word s l) \<and> (\<forall>l \<in> set corpus. 5 \<le> length l) \<and>
      (\<forall>l \<in> set corpus. \<not> 0 < adjusted_score s l)) \<and>
   ((\<forall>l \<in> set corpus. 5 \<le> length l \<and> set (str_lower s) \<inter> set (str_lower l) = {}) \<longrightarrow>
      resolve corpus (Query s) = Inl NoMatch)"
proof (intro conjI impI)
  show "resolve corpus (Query s) = Inl NoMatch \<longleftrightarrow>
      (\<forall>l \<in> set corpus. \<not> exact_word s l) \<and> (\<forall>l \<in> set corpus. 5 \<le> length l) \<and>
      (\<forall>l \<in> set corpus. \<not> 0 < adjusted_score s l)"
    by (rule no_match_cases)
next
  assume d: "\<forall>l \<in> set corpus. 5 \<le> length l \<and> set (str_lower s) \<inter> set (str_lower l) = {}"
  have "\<forall>l \<in> set corpus. \<not> exact_word s l"
    using d disjoint_no_exact_word by blast
  moreover have "\<forall>l \<in> set corpus. \<not> 0 < adjusted_score s l"
  proof
    fix l assume "l \<in> set corpus"
    then have "5 \<le> length l" "set (str_lower s) \<inter> set (str_lower l) = {}" using d by auto
    then have "adjusted_score s l = 0" by (intro adjusted_score_disjoint) auto
    then show "\<not> 0 < adjusted_score s l" by simp
  qed
  ultimately show "resolve corpus (Query s) = Inl NoMatch"
    using d no_match_cases[of corpus s] by blast
qed

theorem no_match_iff_witness:
  "resolve [''hello world'', ''foo bar''] (Query ''XYZ'') = Inl NoMatch \<and>
   \<not> exact_word ''XYZ'' ''hello world'' \<and> \<not> exact_word ''XYZ'' ''foo bar'' \<and>
   \<not> 0 < adjusted_score ''XYZ'' ''hello world'' \<and> \<not> 0 < adjusted_score ''XYZ'' ''foo bar''"
proof -
  have "\<forall>l \<in> set [''hello world'', ''foo bar''].
          5 \<le> length l \<and> set (str_lower ''XYZ'') \<inter> set (str_lower l) = {}"
    by (simp add: ev)
  then have "resolve [''hello world'', ''foo bar''] (Query ''XYZ'') = Inl NoMatch"
    using no_match_iff[of "[''hello world'', ''foo bar'']" "''XYZ''"] by blast
  then show ?thesis
    using no_match_iff[of "[''hello world'', ''foo bar'']" "''XYZ''"] by simp
qed

text \<open>
  C9.  For a corpus whose lines all have at least five characters the empty query fails
  with \<open>NoMatch\<close>: splitting on whitespace yields no empty word, so no word equals the
  empty query, and the ratio of the empty query and any line is 0.
\<close>

theorem empty_query_no_match:
  assumes "\<forall>l \<in> set corpus. 5 \<le> length l"
  shows "(\<forall>l \<in> set corpus. [] \<notin> set (split l)) \<and>
         (\<forall>l \<in> set corpus. \<not> exact_word [] l) \<and>
         (\<forall>l \<in> set corpus. ratio (str_lower []) (str_lower l) = 0) \<and>
         resolve corpus (Query []) = Inl NoMatch"
proof -
  have w: "\<forall>l \<in> set corpus. [] \<notin> set (split l)" using split_nonempty by blast
  have e: "\<forall>l \<in> set corpus. \<not> exact_word [] l"
    using disjoint_no_exact_word[of "[]"] by (simp add: str_lower_def)
  have r: "\<forall>l \<in> set corpus. ratio (str_lower []) (str_lower l) = 0"
  proof
    fix l assume "l \<in> set corpus"
    then have "str_lower l \<noteq> []" using assms by (auto simp: str_lower_def)
    then show "ratio (str_lower []) (str_lower l) = 0"
      by (simp add: ratio_disjoint str_lower_def)
  qed
  have "\<forall>l \<in> set corpus. \<not> 0 < adjusted_score [] l"
    using r by (simp add: adjusted_score_def)
  then have "resolve corpus (Query []) = Inl NoMatch"
    using e assms no_match_cases[of corpus "[]"] by blast
  with w e r show ?thesis by blast
qed

theorem empty_query_no_match_witness:
  "5 \<le> length ''Readability counts.'' \<and> 5 \<le> length ''hello'' \<and>
   resolve [''Readability counts.'', ''hello''] (Query []) = Inl NoMatch"
proof -
  have "\<forall>l \<in> set [''Readability counts.'', ''hello'']. 5 \<le> length l" by simp
  from empty_query_no_match[OF this] show ?thesis by simp
qed

text \<open>
  The specification's example for C4 returns no line.  For the query \<open>"ab"\<close> the two
  lines have the same ratio and the same adjusted score, which is 0 since
  \<open>len(line) - 5 = 0\<close>, so the best candidate is never set.
\<close>

theorem five_letter_lines_counterexample:
  "\<not> exact_word ''ab'' ''aaaaa'' \<and> \<not> exact_word ''ab'' ''bbbbb'' \<and>
   ratio (str_lower ''ab'') (str_lower ''aaaaa'') = 2 / 7 \<and>
   ratio (str_lower ''ab'') (str_lower ''bbbbb'') = 2 / 7 \<and>
   adjusted_ratio (str_lower ''ab'') ''aaaaa'' = PyFloat 0 \<and>
   adjusted_ratio (str_lower ''ab'') ''bbbbb'' = PyFloat 0 \<and>
   resolve [''aaaaa'', ''bbbbb''] (Query ''ab'') = Inl NoMatch \<and>
   resolve [''aaaaa'', ''bbbbb''] (Query ''ab'') \<noteq> Inr \<lparr>result_index = 0, result_line = ''aaaaa''\<rparr>"
  by (simp add: ev)

text \<open>
  C4, amended.  For the corpus \<open>["aaaaa", "bbbbb"]\<close> and a query with no exact word
  match, both lines have the adjusted score 0 and \<open>resolve\<close> fails with \<open>NoMatch\<close>.
\<close>

theorem five_letter_lines_no_match:
  assumes "\<not> exact_word s ''aaaaa''" and "\<not> exact_word s ''bbbbb''"
  shows "adjusted_ratio (str_lower s) ''aaaaa'' = PyFloat 0 \<and>
         adjusted_ratio (str_lower s) ''bbbbb'' = PyFloat 0 \<and>
         resolve [''aaaaa'', ''bbbbb''] (Query s) = Inl NoMatch"
proof -
  have z: "adjusted_score s ''aaaaa'' = 0" "adjusted_score s ''bbbbb'' = 0"
    by (simp_all add: adjusted_score_five)
  have "resolve [''aaaaa'', ''bbbbb''] (Query s) = Inl NoMatch"
    using assms z no_match_cases[of "[''aaaaa'', ''bbbbb'']" s] by simp
  moreover have "adjusted_ratio (str_lower s) ''aaaaa'' = PyFloat 0"
    using adjusted_ratio_float[of "''aaaaa''" s] z by simp
  moreover have "adjusted_ratio (str_lower s) ''bbbbb'' = PyFloat 0"
    using adjusted_ratio_float[of "''bbbbb''" s] z by simp
  ultimately show ?thesis by simp
qed

theorem five_letter_lines_no_match_witness:
  "\<not> exact_word ''ab'' ''aaaaa'' \<and> \<not> exact_word ''ab'' ''bbbbb'' \<and>
   resolve [''aaaaa'', ''bbbbb''] (Query ''ab'') = Inl NoMatch"
proof -
  have a: "\<not> exact_word ''ab'' ''aaaaa''" by (simp add: ev)
  have b: "\<not> exact_word ''ab'' ''bbbbb''" by (simp add: ev)
  from five_letter_lines_no_match[OF a b] a b show ?thesis by simp
qed

section \<open>The adjusted score\<close>

text \<open>
  The code has no \<open>max(..., 0)\<close>.  For a line of four characters the power is a
  \<open>complex\<close>, so is the score, and the comparison with the best ratio raises
  \<open>TypeError\<close> instead of treating the score as 0.
\<close>

theorem short_line_counterexample:
  "length ''abcd'' < 5 \<and>
   ratio (str_lower ''abc'') (str_lower ''abcd'') = 6 / 7 \<and>
   adjusted_ratio (str_lower ''abc'') ''abcd'' \<noteq> PyFloat 0 \<and>
   \<not> exact_word ''abc'' ''abcd'' \<and>
   resolve [''abcd''] (Query ''abc'') = Inl TypeError"
  by (simp add: ev)

text \<open>
  C1, amended.  In phase 2, for every line of at least five characters the adjusted
  score is \<open>sqrt(max(len(line) - 5, 0))\<close> times the ratio of the lowercased query and
  the lowercased line (0 for a line of exactly five characters).  A line of fewer than
  five characters has a \<open>complex\<close> score, and \<open>resolve\<close> then fails with \<open>TypeError\<close>
  whenever phase 1 finds no exact word.
\<close>

theorem adjusted_ratio_formula:
  "(5 \<le> length l \<longrightarrow>
      adjusted_ratio (str_lower s) l =
        PyFloat (sqrt (of_int (max (int (length l) - 5) 0)) * ratio (str_lower s) (str_lower l))) \<and>
   (length l < 5 \<longrightarrow> (\<exists>z. adjusted_ratio (str_lower s) l = PyComplex z)) \<and>
   (length l < 5 \<and> l \<in> set corpus \<and> (\<forall>l' \<in> set corpus. \<not> exact_word s l') \<longrightarrow>
      resolve corpus (Query s) = Inl TypeError)"
proof (intro conjI impI)
  assume "5 \<le> length l"
  then show "adjusted_ratio (str_lower s) l =
        PyFloat (sqrt (of_int (max (int (length l) - 5) 0)) * ratio (str_lower s) (str_lower l))"
    using adjusted_ratio_float[of l s] by (simp add: adjusted_score_def)
next
  assume "length l < 5"
  then show "\<exists>z. adjusted_ratio (str_lower s) l = PyComplex z"
    by (rule adjusted_ratio_complex)
next
  assume h: "length l < 5 \<and> l \<in> set corpus \<and> (\<forall>l' \<in> set corpus. \<not> exact_word s l')"
  then have none: "line_loop s 0 corpus = None" by (simp add: line_loop_None_iff)
  from phase2_cases[OF none] h show "resolve corpus (Query s) = Inl TypeError"
    by force
qed

theorem adjusted_ratio_formula_witness:
  "adjusted_ratio (str_lower ''ABC'') ''xabcxxxxx'' = PyFloat (2 * (1 / 2)) \<and>
   adjusted_ratio (str_lower ''ABC'') ''abcde'' = PyFloat 0 \<and>
   resolve [''xabcxxxxx'', ''abcd''] (Query ''ABC'') = Inl TypeError"
proof -
  have r: "ratio (str_lower ''ABC'') (str_lower ''xabcxxxxx'') = 1 / 2" by (simp add: ev)
  have q: "sqrt (of_int (max (int (length ''xabcxxxxx'') - 5) 0)) = 2" by simp
  have e: "\<forall>l' \<in> set [''xabcxxxxx'', ''abcd'']. \<not> exact_word ''ABC'' l'" by (simp add: ev)
  show ?thesis
    using adjusted_ratio_formula[of "''xabcxxxxx''" "''ABC''" "[]"] r q
      adjusted_ratio_formula[of "''abcde''" "''ABC''" "[]"]
      adjusted_ratio_formula[of "''abcd''" "''ABC''" "[''xabcxxxxx'', ''abcd'']"] e
    by simp
qed

section \<open>Upper and lower case\<close>

lemma upper_lower_ascii:
  assumes "of_char c < (128::nat)"
  shows "\<exists>u. upper_char c = Some u \<and> str_lower u = [lower_char c]"
proof (cases "97 \<le> (of_char c :: nat) \<and> (of_char c :: nat) \<le> 122")
  case True
  then have u: "upper_char c = Some [char_of (of_char c - (32::nat))]"
    by (simp add: upper_char_def)
  have "((of_char c :: nat) - 32) mod 256 = of_char c - 32"
    using True by (intro mod_less) arith
  then have "of_char (char_of (of_char c - (32::nat)) :: char) = (of_char c :: nat) - 32"
    by simp
  moreover have "(of_char c :: nat) - 32 + 32 = of_char c" using True by arith
  ultimately have "lower_char (char_of (of_char c - (32::nat))) = c"
    using True by (auto simp: lower_char_def Let_def)
  moreover have "lower_char c = c" using True by (auto simp: lower_char_def Let_def)
  ultimately show ?thesis using u by (simp add: str_lower_def)
next
  case False
  then have "upper_char c = Some [c]" using assms by (auto simp: upper_char_def)
  then show ?thesis by (simp add: str_lower_def)
qed

lemma str_upper_lower_ascii:
  "\<forall>c \<in> set s. of_char c < (128::nat) \<Longrightarrow> \<exists>u. str_upper s = Some u \<and> str_lower u = str_lower s"
proof (induction s)
  case Nil
  then show ?case by (simp add: str_lower_def)
next
  case (Cons c s)
  then obtain us where us: "str_upper s = Some us" "str_lower us = str_lower s" by auto
  from Cons.prems upper_lower_ascii[of c] obtain u
    where u: "upper_char c = Some u" "str_lower u = [lower_char c]" by auto
  have "str_upper (c # s) = Some (u @ us)" using u(1) us(1) by simp
  moreover have "str_lower (u @ us) = str_lower (c # s)"
    using u(2) us(2) by (simp add: str_lower_def)
  ultimately show ?case by blast
qed

section \<open>The command on its own text\<close>

text \<open>
  Every line of the Zen has more than five characters, so the command never meets a
  \<open>complex\<close> score.
\<close>

lemma zen_lines_long: "\<forall>l \<in> set ZEN_OF_PYTHON. 5 < length l"
  by (simp add: ZEN_OF_PYTHON_def)

lemma zen_no_type_error: "zen v \<noteq> Inl TypeError"
proof (cases v)
  case None
  then show ?thesis by (simp add: zen_def)
next
  case (Some sel)
  have "resolve ZEN_OF_PYTHON sel \<noteq> Inl TypeError"
  proof (cases sel)
    case (Index n)
    then show ?thesis
      using resolve_index_inside[of ZEN_OF_PYTHON n] resolve_index_outside[of ZEN_OF_PYTHON n]
      by (cases "- int (length ZEN_OF_PYTHON) \<le> n \<and> n \<le> int (length ZEN_OF_PYTHON) - 1") auto
  next
    case (Query s)
    show ?thesis
    proof (cases "line_loop s 0 ZEN_OF_PYTHON")
      case None
      from phase2_cases[OF None] zen_lines_long show ?thesis using Query by force
    next
      case (Some r)
      then show ?thesis using Query by simp
    qed
  qed
  then show ?thesis using Some by (auto simp: zen_def split: sum.splits)
qed

lemma zen_sharp_s: "zen (Some (Query [CHR 0xDF])) = Inl NoMatch"
proof -
  have "\<forall>l \<in> set ZEN_OF_PYTHON. 5 \<le> length l \<and> set (str_lower [CHR 0xDF]) \<inter> set (str_lower l) = {}"
    by (simp add: ZEN_OF_PYTHON_def ev)
  then have "\<forall>l \<in> set ZEN_OF_PYTHON. \<not> exact_word [CHR 0xDF] l"
    "\<forall>l \<in> set ZEN_OF_PYTHON. 5 \<le> length l"
    "\<forall>l \<in> set ZEN_OF_PYTHON. \<not> 0 < adjusted_score [CHR 0xDF] l"
    using disjoint_no_exact_word adjusted_score_disjoint
    by (blast, blast, metis length_0_conv less_irrefl not_numeral_le_zero)
  then have "resolve ZEN_OF_PYTHON (Query [CHR 0xDF]) = Inl NoMatch"
    using no_match_cases[of ZEN_OF_PYTHON "[CHR 0xDF]"] by blast
  then show ?thesis by (simp add: zen_def)
qed

lemma zen_SS: "zen (Some (Query ''SS'')) \<noteq> Inl NoMatch"
proof -
  have "0 < adjusted_score ''SS'' ''Errors should never pass silently.''"
    by (simp add: ev)
  moreover have "''Errors should never pass silently.'' \<in> set ZEN_OF_PYTHON"
    by (simp add: ZEN_OF_PYTHON_def)
  ultimately have "resolve ZEN_OF_PYTHON (Query ''SS'') \<noteq> Inl NoMatch"
    using no_match_cases[of ZEN_OF_PYTHON "''SS''"] by blast
  then show ?thesis by (auto simp: zen_def split: sum.splits)
qed

text \<open>
  The claim C7 as the specification states it fails for the letter U+00DF: its upper
  case is \<open>SS\<close>, which lowercases to \<open>ss\<close>.  The two queries differ on a one-line corpus
  and on the Zen itself.
\<close>

theorem sharp_s_counterexample:
  "str_upper [CHR 0xDF] = Some ''SS'' \<and>
   resolve [''ss is double s''] (Query [CHR 0xDF]) = Inl NoMatch \<and>
   resolve [''ss is double s''] (Query ''SS'') =
     Inr \<lparr>result_index = 0, result_line = ''ss is double s''\<rparr> \<and>
   zen (Some (Query [CHR 0xDF])) = Inl NoMatch \<and>
   zen (Some (Query ''SS'')) \<noteq> Inl NoMatch"
  using zen_sharp_s zen_SS by (simp add: ev)

text \<open>
  C7, amended.  For every corpus and every query string \<open>s\<close> whose upper case
  lowercases to the lower case of \<open>s\<close>, \<open>resolve(corpus, Query(s))\<close> and
  \<open>resolve(corpus, Query(uppercase(s)))\<close> are identical; every string of ASCII
  characters is such a string.  In particular \<open>"NOW"\<close> and \<open>"now"\<close> give identical
  results.
\<close>

theorem ascii_case_insensitive:
  "(str_upper s = Some u \<and> str_lower u = str_lower s \<longrightarrow>
      resolve corpus (Query u) = resolve corpus (Query s)) \<and>
   ((\<forall>c \<in> set s. of_char c < (128::nat)) \<longrightarrow>
      (\<exists>v. str_upper s = Some v \<and> str_lower v = str_lower s \<and>
           resolve corpus (Query v) = resolve corpus (Query s)))"
  using str_upper_lower_ascii[of s] resolve_lower by blast

theorem ascii_case_insensitive_witness:
  "str_upper ''now'' = Some ''NOW'' \<and>
   resolve [''now is never'', ''Now is better than never.''] (Query ''NOW'') =
   resolve [''now is never'', ''Now is better than never.''] (Query ''now'')"
proof -
  have a: "\<forall>c \<in> set ''now''. of_char c < (128::nat)" by simp
  have u: "str_upper ''now'' = Some ''NOW''" by (simp add: ev)
  from ascii_case_insensitive[of "''now''" "''NOW''" "[''now is never'', ''Now is better than never.'']"] a u
  show ?thesis by simp
qed

section \<open>Phase 2 in the arithmetic of doubles\<close>

text \<open>
  The scores of the code are IEEE doubles: \<open>2.0 * matches / length\<close>, the power
  \<open>n ** 0.5\<close> and the product are each rounded, and the power is computed by the
  platform's \<open>pow\<close>.  Two lines whose scores are equal as real numbers can therefore
  have different computed scores, and \<^verbatim>\<open>adjusted_ratio > best_ratio\<close> compares the computed
  ones.  Which line is the best depends on this, so the loop is given here with the three
  operations as parameters: the power \<open>n ** 0.5\<close> for an integer \<open>n \<ge> 0\<close>, the product
  and the quotient of two floats.
\<close>

record float_ops =
  float_pow_half :: "int \<Rightarrow> real"
  float_mul :: "real \<Rightarrow> real \<Rightarrow> real"
  float_div :: "real \<Rightarrow> real \<Rightarrow> real"

text \<open>The operations without rounding.\<close>

definition exact_ops :: float_ops where
  "exact_ops = \<lparr>float_pow_half = (\<lambda>n. sqrt (of_int n)), float_mul = (*), float_div = (/)\<rparr>"

text \<open>
  \<open>_calculate_ratio\<close>, the power, the product and the score as in the sections above,
  with the operations of \<open>fp\<close>.  The power of a negative integer is a \<open>complex\<close> whatever
  the rounding.
\<close>

definition ratio_with :: "float_ops \<Rightarrow> string \<Rightarrow> string \<Rightarrow> real" where
  "ratio_with fp a b =
     (let matches = sum_list (map (\<lambda>(i, j, k). k) (get_matching_blocks a b));
          len = length a + length b
      in if len \<noteq> 0 then float_div fp (float_mul fp 2 (real matches)) (real len) else 1)"

definition pow_half_with :: "float_ops \<Rightarrow> int \<Rightarrow> pynum" where
  "pow_half_with fp n =
     (if n < 0 then PyComplex (csqrt (of_int n)) else PyFloat (float_pow_half fp n))"

definition times_float_with :: "float_ops \<Rightarrow> pynum \<Rightarrow> real \<Rightarrow> pynum" where
  "times_float_with fp x r =
     (case x of PyFloat y \<Rightarrow> PyFloat (float_mul fp y r) | PyComplex z \<Rightarrow> PyComplex (z * of_real r))"

definition adjusted_ratio_with :: "float_ops \<Rightarrow> string \<Rightarrow> string \<Rightarrow> pynum" where
  "adjusted_ratio_with fp a line =
     times_float_with fp (pow_half_with fp (int (length line) - 5)) (ratio_with fp a (str_lower line))"

text \<open>The loop of phase 2 and the selection, as \<open>best_loop\<close> and \<open>resolve\<close>.\<close>

fun best_loop_with ::
  "float_ops \<Rightarrow> string \<Rightarrow> nat \<Rightarrow> string list \<Rightarrow> string \<times> nat \<times> real \<Rightarrow>
   error + string \<times> nat \<times> real" where
  "best_loop_with fp a index [] st = Inr st"
| "best_loop_with fp a index (line # rest) (best_match, match_index, best_ratio) =
     (case adjusted_ratio_with fp a line of
        PyComplex z \<Rightarrow> Inl TypeError
      | PyFloat x \<Rightarrow>
          if best_ratio < x then best_loop_with fp a (Suc index) rest (line, index, x)
          else best_loop_with fp a (Suc index) rest (best_match, match_index, best_ratio))"

fun resolve_with :: "float_ops \<Rightarrow> string list \<Rightarrow> selector \<Rightarrow> error + match_result" where
  "resolve_with fp zen_lines (Index search_value) =
     (let upper_bound = int (length zen_lines) - 1;
          lower_bound = -1 * int (length zen_lines)
      in if \<not> (lower_bound \<le> search_value \<and> search_value \<le> upper_bound)
         then Inl (OutOfRange lower_bound upper_bound)
         else (case py_mod search_value (int (length zen_lines)) of
                 Inl e \<Rightarrow> Inl e
               | Inr n \<Rightarrow>
                   (case getitem zen_lines search_value of
                      Inl e \<Rightarrow> Inl e
                    | Inr line \<Rightarrow> Inr \<lparr>result_index = n, result_line = line\<rparr>)))"
| "resolve_with fp zen_lines (Query search_value) =
     (case line_loop search_value 0 zen_lines of
        Some r \<Rightarrow> Inr r
      | None \<Rightarrow>
          (case best_loop_with fp (str_lower search_value) 0 zen_lines ([], 0, 0) of
             Inl e \<Rightarrow> Inl e
           | Inr (best_match, match_index, best_ratio) \<Rightarrow>
               if best_match = [] then Inl NoMatch
               else Inr \<lparr>result_index = int match_index, result_line = best_match\<rparr>))"

text \<open>The double that the code computes as the score of a line of five characters or more.\<close>

definition computed_score :: "float_ops \<Rightarrow> string \<Rightarrow> string \<Rightarrow> real" where
  "computed_score fp s line =
     float_mul fp (float_pow_half fp (int (length line) - 5))
       (ratio_with fp (str_lower s) (str_lower line))"

text \<open>With the exact operations this is the selection of the sections above.\<close>

lemma exact_ops_simps:
  "float_pow_half exact_ops n = sqrt (of_int n)"
  "float_mul exact_ops x y = x * y"
  "float_div exact_ops x y = x / y"
  by (simp_all add: exact_ops_def)

lemma ratio_with_exact: "ratio_with exact_ops a b = ratio a b"
  by (simp add: ratio_with_def ratio_def exact_ops_simps)

lemma adjusted_ratio_with_exact: "adjusted_ratio_with exact_ops a l = adjusted_ratio a l"
  by (simp add: adjusted_ratio_with_def adjusted_ratio_def ratio_with_exact pow_half_with_def
      pow_half_def times_float_with_def times_float_def exact_ops_simps)

lemma best_loop_with_exact: "best_loop_with exact_ops a i ls st = best_loop a i ls st"
proof (induction ls arbitrary: i st)
  case Nil
  then show ?case by simp
next
  case (Cons l ls)
  obtain bm mi br where st: "st = (bm, mi, br)" by (cases st) auto
  show ?case using Cons by (simp add: st adjusted_ratio_with_exact split: pynum.splits)
qed

lemma resolve_with_exact: "resolve_with exact_ops corpus sel = resolve corpus sel"
proof (cases sel)
  case (Index n)
  then show ?thesis by simp
next
  case (Query s)
  then show ?thesis
    by (cases "line_loop s 0 corpus") (simp_all add: best_loop_with_exact)
qed

text \<open>The three outcomes of phase 2, for any operations.\<close>

lemma adjusted_ratio_with_float:
  "5 \<le> length l \<Longrightarrow> adjusted_ratio_with fp (str_lower s) l = PyFloat (computed_score fp s l)"
  by (simp add: adjusted_ratio_with_def computed_score_def pow_half_with_def times_float_with_def)

lemma adjusted_ratio_with_complex:
  "length l < 5 \<Longrightarrow> \<exists>z. adjusted_ratio_with fp a l = PyComplex z"
  by (simp add: adjusted_ratio_with_def pow_half_with_def times_float_with_def)

lemma best_loop_with_complex:
  "l \<in> set ls \<Longrightarrow> adjusted_ratio_with fp a l = PyComplex z \<Longrightarrow>
   best_loop_with fp a i ls st = Inl TypeError"
proof (induction ls arbitrary: i st)
  case Nil
  then show ?case by simp
next
  case (Cons x xs)
  obtain bm mi br where st: "st = (bm, mi, br)" by (cases st) auto
  show ?case
  proof (cases "adjusted_ratio_with fp a x")
    case (PyFloat y)
    then have "x \<noteq> l" using Cons.prems(2) by auto
    then have "l \<in> set xs" using Cons.prems(1) by simp
    from Cons.IH[OF this Cons.prems(2)] show ?thesis using PyFloat st by simp
  next
    case (PyComplex z')
    then show ?thesis using st by simp
  qed
qed

lemma best_loop_with_cases:
  assumes "\<forall>l \<in> set ls. adjusted_ratio_with fp a l = PyFloat (f l)"
  shows "(\<forall>l \<in> set ls. f l \<le> br) \<and> best_loop_with fp a i ls (bm, mi, br) = Inr (bm, mi, br) \<or>
         (\<exists>k < length ls. br < f (ls ! k) \<and> (\<forall>m < length ls. f (ls ! m) \<le> f (ls ! k)) \<and>
            (\<forall>m < k. f (ls ! m) < f (ls ! k)) \<and>
            best_loop_with fp a i ls (bm, mi, br) = Inr (ls ! k, i + k, f (ls ! k)))"
  using assms
proof (induction ls arbitrary: i bm mi br)
  case Nil
  then show ?case by simp
next
  case (Cons x xs)
  have x: "adjusted_ratio_with fp a x = PyFloat (f x)" using Cons.prems by simp
  have xs: "\<forall>l \<in> set xs. adjusted_ratio_with fp a l = PyFloat (f l)" using Cons.prems by simp
  show ?case
  proof (cases "br < f x")
    case True
    then have step: "best_loop_with fp a i (x # xs) (bm, mi, br) = best_loop_with fp a (Suc i) xs (x, i, f x)"
      using x by simp
    from Cons.IH[OF xs, of "f x" "Suc i" x i] show ?thesis
    proof
      assume h: "(\<forall>l \<in> set xs. f l \<le> f x) \<and>
        best_loop_with fp a (Suc i) xs (x, i, f x) = Inr (x, i, f x)"
      have "\<forall>m < length (x # xs). f ((x # xs) ! m) \<le> f ((x # xs) ! 0)"
        using h by (auto simp: nth_Cons split: nat.splits)
      then show ?thesis using True step h by (intro disjI2 exI[of _ 0]) simp
    next
      assume "\<exists>k < length xs. f x < f (xs ! k) \<and> (\<forall>m < length xs. f (xs ! m) \<le> f (xs ! k)) \<and>
            (\<forall>m < k. f (xs ! m) < f (xs ! k)) \<and>
            best_loop_with fp a (Suc i) xs (x, i, f x) = Inr (xs ! k, Suc i + k, f (xs ! k))"
      then obtain k where k: "k < length xs" "f x < f (xs ! k)"
        "\<forall>m < length xs. f (xs ! m) \<le> f (xs ! k)" "\<forall>m < k. f (xs ! m) < f (xs ! k)"
        "best_loop_with fp a (Suc i) xs (x, i, f x) = Inr (xs ! k, Suc i + k, f (xs ! k))" by blast
      have "\<forall>m < length (x # xs). f ((x # xs) ! m) \<le> f ((x # xs) ! Suc k)"
        using k(2,3) by (auto simp: nth_Cons split: nat.splits)
      moreover have "\<forall>m < Suc k. f ((x # xs) ! m) < f ((x # xs) ! Suc k)"
        using k(2,4) by (auto simp: nth_Cons split: nat.splits)
      moreover have "br < f ((x # xs) ! Suc k)" using True k(2) by simp
      ultimately show ?thesis using step k(1,5) by (intro disjI2 exI[of _ "Suc k"]) simp
    qed
  next
    case False
    then have step: "best_loop_with fp a i (x # xs) (bm, mi, br) = best_loop_with fp a (Suc i) xs (bm, mi, br)"
      using x by simp
    from Cons.IH[OF xs, of br "Suc i" bm mi] show ?thesis
    proof
      assume "(\<forall>l \<in> set xs. f l \<le> br) \<and>
        best_loop_with fp a (Suc i) xs (bm, mi, br) = Inr (bm, mi, br)"
      then show ?thesis using False step by auto
    next
      assume "\<exists>k < length xs. br < f (xs ! k) \<and> (\<forall>m < length xs. f (xs ! m) \<le> f (xs ! k)) \<and>
            (\<forall>m < k. f (xs ! m) < f (xs ! k)) \<and>
            best_loop_with fp a (Suc i) xs (bm, mi, br) = Inr (xs ! k, Suc i + k, f (xs ! k))"
      then obtain k where k: "k < length xs" "br < f (xs ! k)"
        "\<forall>m < length xs. f (xs ! m) \<le> f (xs ! k)" "\<forall>m < k. f (xs ! m) < f (xs ! k)"
        "best_loop_with fp a (Suc i) xs (bm, mi, br) = Inr (xs ! k, Suc i + k, f (xs ! k))" by blast
      have fx: "f x < f (xs ! k)" using False k(2) by simp
      have "\<forall>m < length (x # xs). f ((x # xs) ! m) \<le> f ((x # xs) ! Suc k)"
        using fx k(3) by (auto simp: nth_Cons split: nat.splits)
      moreover have "\<forall>m < Suc k. f ((x # xs) ! m) < f ((x # xs) ! Suc k)"
        using fx k(4) by (auto simp: nth_Cons split: nat.splits)
      ultimately show ?thesis using step k(1,2,5) by (intro disjI2 exI[of _ "Suc k"]) simp
    qed
  qed
qed

lemma phase2_with_cases:
  assumes "line_loop s 0 corpus = None"
  shows
   "(\<exists>l \<in> set corpus. length l < 5) \<and> resolve_with fp corpus (Query s) = Inl TypeError \<or>
    (\<forall>l \<in> set corpus. 5 \<le> length l) \<and> (\<forall>l \<in> set corpus. computed_score fp s l \<le> 0) \<and>
      resolve_with fp corpus (Query s) = Inl NoMatch \<or>
    (\<forall>l \<in> set corpus. 5 \<le> length l) \<and>
      (\<exists>k < length corpus. 0 < computed_score fp s (corpus ! k) \<and>
         (\<forall>m < length corpus. computed_score fp s (corpus ! m) \<le> computed_score fp s (corpus ! k)) \<and>
         (\<forall>m < k. computed_score fp s (corpus ! m) < computed_score fp s (corpus ! k)) \<and>
         resolve_with fp corpus (Query s) = Inr \<lparr>result_index = int k, result_line = corpus ! k\<rparr>)"
proof (cases "\<exists>l \<in> set corpus. length l < 5")
  case True
  then obtain l where l: "l \<in> set corpus" "length l < 5" by blast
  from adjusted_ratio_with_complex[OF l(2), of fp "str_lower s"] obtain z
    where "adjusted_ratio_with fp (str_lower s) l = PyComplex z" by blast
  from best_loop_with_complex[OF l(1) this] have "resolve_with fp corpus (Query s) = Inl TypeError"
    using assms by simp
  with True show ?thesis by blast
next
  case False
  then have long: "\<forall>l \<in> set corpus. 5 \<le> length l" by auto
  then have fl: "\<forall>l \<in> set corpus.
      adjusted_ratio_with fp (str_lower s) l = PyFloat (computed_score fp s l)"
    by (simp add: adjusted_ratio_with_float)
  from best_loop_with_cases[OF fl, of 0 0 "[]" 0] show ?thesis
  proof
    assume h: "(\<forall>l \<in> set corpus. computed_score fp s l \<le> 0) \<and>
      best_loop_with fp (str_lower s) 0 corpus ([], 0, 0) = Inr ([], 0, 0)"
    then have "resolve_with fp corpus (Query s) = Inl NoMatch" using assms by simp
    with h long show ?thesis by blast
  next
    assume "\<exists>k < length corpus. 0 < computed_score fp s (corpus ! k) \<and>
       (\<forall>m < length corpus. computed_score fp s (corpus ! m) \<le> computed_score fp s (corpus ! k)) \<and>
       (\<forall>m < k. computed_score fp s (corpus ! m) < computed_score fp s (corpus ! k)) \<and>
       best_loop_with fp (str_lower s) 0 corpus ([], 0, 0) =
         Inr (corpus ! k, 0 + k, computed_score fp s (corpus ! k))"
    then obtain k where k: "k < length corpus" "0 < computed_score fp s (corpus ! k)"
       "\<forall>m < length corpus. computed_score fp s (corpus ! m) \<le> computed_score fp s (corpus ! k)"
       "\<forall>m < k. computed_score fp s (corpus ! m) < computed_score fp s (corpus ! k)"
       "best_loop_with fp (str_lower s) 0 corpus ([], 0, 0) =
         Inr (corpus ! k, 0 + k, computed_score fp s (corpus ! k))" by blast
    have "5 \<le> length (corpus ! k)" using long k(1) by simp
    then have "corpus ! k \<noteq> []" by auto
    then have "resolve_with fp corpus (Query s) =
        Inr \<lparr>result_index = int k, result_line = corpus ! k\<rparr>"
      using assms k(5) by simp
    with k(1-4) long show ?thesis by blast
  qed
qed

lemmas ev_with = ev ratio_with_def pow_half_with_def times_float_with_def adjusted_ratio_with_def
  computed_score_def exact_ops_simps

text \<open>
  The claim C5 as the specification states it fails in two ways.  When no line has a
  positive score, every line attains the greatest score, 0, and no line is returned:
  \<open>resolve\<close> fails with \<open>NoMatch\<close>.  When a line has fewer than five characters the
  comparison raises \<open>TypeError\<close>, although an earlier line has a positive score.  All the
  scores below are exact in doubles.
\<close>

theorem no_line_returned_counterexample:
  "\<not> exact_word ''xyz'' ''hello world'' \<and> \<not> exact_word ''xyz'' ''foo bar'' \<and>
   adjusted_ratio (str_lower ''xyz'') ''hello world'' = PyFloat 0 \<and>
   adjusted_ratio (str_lower ''xyz'') ''foo bar'' = PyFloat 0 \<and>
   resolve [''hello world'', ''foo bar''] (Query ''xyz'') = Inl NoMatch \<and>
   \<not> exact_word ''ab'' ''xabxxx'' \<and> \<not> exact_word ''ab'' ''abcd'' \<and>
   adjusted_ratio (str_lower ''ab'') ''xabxxx'' = PyFloat (1 / 2) \<and>
   resolve [''xabxxx'', ''abcd''] (Query ''ab'') = Inl TypeError"
  by (simp add: ev)

text \<open>
  C5, amended.  When phase 1 finds no exact word, phase 2 returns a line exactly when
  every line has at least five characters and the greatest adjusted score is strictly
  positive.  The line returned is then the earliest line, in corpus order, among those
  attaining the greatest adjusted score as the code computes it: every line has a
  computed score at most as great, and every earlier line a strictly smaller one.  The
  best candidate is only replaced when a strictly greater computed score is seen, so a
  later line with an equal or lower computed score never replaces an earlier maximum.
  This holds for every rounding of the three operations.
\<close>

theorem first_maximum_returned:
  assumes "\<forall>l \<in> set corpus. \<not> exact_word s l"
  shows "resolve_with fp corpus (Query s) = Inr r \<longleftrightarrow>
         (\<forall>l \<in> set corpus. 5 \<le> length l) \<and>
         (\<exists>k < length corpus.
            r = \<lparr>result_index = int k, result_line = corpus ! k\<rparr> \<and>
            0 < computed_score fp s (corpus ! k) \<and>
            (\<forall>m < length corpus. computed_score fp s (corpus ! m) \<le> computed_score fp s (corpus ! k)) \<and>
            (\<forall>m < k. computed_score fp s (corpus ! m) < computed_score fp s (corpus ! k)))"
    (is "?lhs \<longleftrightarrow> ?long \<and> ?first")
proof -
  have none: "line_loop s 0 corpus = None" using assms by (simp add: line_loop_None_iff)
  show ?thesis
  proof
    assume ?lhs
    with phase2_with_cases[OF none, of fp] show "?long \<and> ?first" by auto
  next
    assume rhs: "?long \<and> ?first"
    then obtain k where k: "k < length corpus" "r = \<lparr>result_index = int k, result_line = corpus ! k\<rparr>"
      "0 < computed_score fp s (corpus ! k)"
      "\<forall>m < length corpus. computed_score fp s (corpus ! m) \<le> computed_score fp s (corpus ! k)"
      "\<forall>m < k. computed_score fp s (corpus ! m) < computed_score fp s (corpus ! k)" by blast
    from phase2_with_cases[OF none, of fp] show ?lhs
    proof (elim disjE conjE)
      assume "\<exists>l \<in> set corpus. length l < 5"
      with rhs show ?thesis by force
    next
      assume "\<forall>l \<in> set corpus. computed_score fp s l \<le> 0"
      then have "computed_score fp s (corpus ! k) \<le> 0" using k(1) by simp
      with k(3) show ?thesis by simp
    next
      assume "\<exists>j < length corpus. 0 < computed_score fp s (corpus ! j) \<and>
         (\<forall>m < length corpus. computed_score fp s (corpus ! m) \<le> computed_score fp s (corpus ! j)) \<and>
         (\<forall>m < j. computed_score fp s (corpus ! m) < computed_score fp s (corpus ! j)) \<and>
         resolve_with fp corpus (Query s) = Inr \<lparr>result_index = int j, result_line = corpus ! j\<rparr>"
      then obtain j where j: "j < length corpus"
         "\<forall>m < length corpus. computed_score fp s (corpus ! m) \<le> computed_score fp s (corpus ! j)"
         "\<forall>m < j. computed_score fp s (corpus ! m) < computed_score fp s (corpus ! j)"
         "resolve_with fp corpus (Query s) = Inr \<lparr>result_index = int j, result_line = corpus ! j\<rparr>"
        by blast
      have "\<not> j < k" using k(5) j(2) k(1) by (meson leD)
      moreover have "\<not> k < j" using j(3) k(4) j(1) by (meson leD)
      ultimately have "j = k" by simp
      then show ?thesis using j(4) k(2) by simp
    qed
  qed
qed

text \<open>
  On the corpus below all three operations are exact in doubles: the power is \<open>1.0\<close>
  and the ratios are \<open>0.25\<close> and \<open>0.5\<close>.  Lines 1 and 2 tie, and line 1 is returned.
\<close>

theorem first_maximum_returned_witness:
  "computed_score exact_ops ''ab'' ''zazzzz'' = 1 / 4 \<and>
   computed_score exact_ops ''ab'' ''xabxxx'' = 1 / 2 \<and>
   computed_score exact_ops ''ab'' ''yabyyy'' = 1 / 2 \<and>
   resolve_with exact_ops [''zazzzz'', ''xabxxx'', ''yabyyy''] (Query ''ab'') =
     Inr \<lparr>result_index = 1, result_line = ''xabxxx''\<rparr>"
proof -
  have sc: "computed_score exact_ops ''ab'' ''zazzzz'' = 1 / 4"
    "computed_score exact_ops ''ab'' ''xabxxx'' = 1 / 2"
    "computed_score exact_ops ''ab'' ''yabyyy'' = 1 / 2"
    by (simp_all add: ev_with)
  have nw: "\<forall>l \<in> set [''zazzzz'', ''xabxxx'', ''yabyyy'']. \<not> exact_word ''ab'' l"
    by (simp add: ev)
  have "(\<forall>l \<in> set [''zazzzz'', ''xabxxx'', ''yabyyy'']. 5 \<le> length l) \<and>
     (\<exists>k < length [''zazzzz'', ''xabxxx'', ''yabyyy''].
        \<lparr>result_index = 1, result_line = ''xabxxx''\<rparr> =
          \<lparr>result_index = int k, result_line = [''zazzzz'', ''xabxxx'', ''yabyyy''] ! k\<rparr> \<and>
        0 < computed_score exact_ops ''ab'' ([''zazzzz'', ''xabxxx'', ''yabyyy''] ! k) \<and>
        (\<forall>m < length [''zazzzz'', ''xabxxx'', ''yabyyy''].
           computed_score exact_ops ''ab'' ([''zazzzz'', ''xabxxx'', ''yabyyy''] ! m)
             \<le> computed_score exact_ops ''ab'' ([''zazzzz'', ''xabxxx'', ''yabyyy''] ! k)) \<and>
        (\<forall>m < k. computed_score exact_ops ''ab'' ([''zazzzz'', ''xabxxx'', ''yabyyy''] ! m)
             < computed_score exact_ops ''ab'' ([''zazzzz'', ''xabxxx'', ''yabyyy''] ! k)))"
    apply (rule conjI)
     apply simp
    apply (rule exI[of _ 1])
    apply (simp add: sc All_less_Suc)
    done
  then show ?thesis
    using first_maximum_returned[OF nw, of exact_ops "\<lparr>result_index = 1, result_line = ''xabxxx''\<rparr>"] sc
    by blast
qed

section \<open>A tie that the rounding breaks\<close>

text \<open>
  For the query \<open>"abcde"\<close> the lines \<open>"abcxxxxxx"\<close> and \<open>"abc"\<close> followed by 27 \<open>y\<close> both
  have the real score \<open>6/7\<close>.  In doubles the first is \<open>2.0 * (6.0 / 14)\<close>, which is
  \<open>0.8571428571428571\<close>, and the second is \<open>5.0 * (6.0 / 35)\<close>, which is
  \<open>0.8571428571428572\<close>, so the code replaces the first line by the second.  The
  operations below give the IEEE results (round to nearest, ties to even) at the
  arguments that occur in this example; everything else that occurs is exact.
\<close>

definition rounded_ops :: float_ops where
  "rounded_ops =
     \<lparr>float_pow_half = (\<lambda>n. sqrt (of_int n)),
      float_mul = (\<lambda>x y. if x = 5 \<and> y = 3088182601625483 / 18014398509481984
                          then 7720456504063708 / 9007199254740992 else x * y),
      float_div = (\<lambda>x y. if x = 6 \<and> y = 14 then 7720456504063707 / 18014398509481984
                          else if x = 6 \<and> y = 35 then 3088182601625483 / 18014398509481984
                          else x / y)\<rparr>"

text \<open>
  The three tabulated values have a significand of 53 bits and lie within half a unit
  in the last place of the exact quotient or product; the product is exactly half-way,
  and its significand is even.
\<close>

lemma rounded_ops_nearest:
  "(2::real) ^ 52 \<le> 7720456504063707 \<and> (7720456504063707::real) < 2 ^ 53 \<and>
   \<bar>6 / 14 - 7720456504063707 / 2 ^ 54\<bar> < (1 / 2 ^ 54) / (2::real) \<and>
   (2::real) ^ 52 \<le> 6176365203250966 \<and> (6176365203250966::real) < 2 ^ 53 \<and>
   (3088182601625483::real) / 18014398509481984 = 6176365203250966 / 2 ^ 55 \<and>
   \<bar>6 / 35 - 6176365203250966 / 2 ^ 55\<bar> < (1 / 2 ^ 55) / (2::real) \<and>
   (2::real) ^ 52 \<le> 7720456504063708 \<and> (7720456504063708::real) < 2 ^ 53 \<and>
   even (7720456504063708::int) \<and>
   \<bar>5 * (3088182601625483 / 18014398509481984) - 7720456504063708 / 2 ^ 53\<bar>
     = (1 / 2 ^ 53) / (2::real)"
  by simp

lemma rounded_ops_simps:
  "float_pow_half rounded_ops n = sqrt (of_int n)"
  "float_mul rounded_ops x y =
     (if x = 5 \<and> y = 3088182601625483 / 18014398509481984
      then 7720456504063708 / 9007199254740992 else x * y)"
  "float_div rounded_ops x y =
     (if x = 6 \<and> y = 14 then 7720456504063707 / 18014398509481984
      else if x = 6 \<and> y = 35 then 3088182601625483 / 18014398509481984
      else x / y)"
  by (simp_all add: rounded_ops_def)

lemmas ev_rounded = ev ratio_with_def pow_half_with_def times_float_with_def adjusted_ratio_with_def
  computed_score_def rounded_ops_simps

lemma sqrt_25: "sqrt 25 = 5"
  using real_sqrt_abs[of 5] by simp

lemma rounded_scores:
  "computed_score rounded_ops ''abcde'' ''abcxxxxxx'' = 7720456504063707 / 9007199254740992"
  "computed_score rounded_ops ''abcde'' ''abcyyyyyyyyyyyyyyyyyyyyyyyyyyy'' = 7720456504063708 / 9007199254740992"
  by (simp_all add: ev_rounded sqrt_25)

lemma exact_scores:
  "adjusted_score ''abcde'' ''abcxxxxxx'' = 6 / 7"
  "adjusted_score ''abcde'' ''abcyyyyyyyyyyyyyyyyyyyyyyyyyyy'' = 6 / 7"
  by (simp_all add: ev sqrt_25)

theorem tie_broken_by_rounding:
  "resolve_with rounded_ops [''abcxxxxxx'', ''abcyyyyyyyyyyyyyyyyyyyyyyyyyyy''] (Query ''abcde'') =
     Inr \<lparr>result_index = 1, result_line = ''abcyyyyyyyyyyyyyyyyyyyyyyyyyyy''\<rparr> \<and>
   resolve_with exact_ops [''abcxxxxxx'', ''abcyyyyyyyyyyyyyyyyyyyyyyyyyyy''] (Query ''abcde'') =
     Inr \<lparr>result_index = 0, result_line = ''abcxxxxxx''\<rparr>"
  by (simp add: ev_rounded exact_ops_simps sqrt_25)

end
